theory Spec2Isabelle
  imports Main
begin

section \<open>Data model of \<open>lexer.py\<close>\<close>

text \<open>
  Python strings are sequences of code points. The model reads the source text as a
  \<^typ>\<open>string\<close> whose characters are the code points 0 to 255, and gives the character
  predicates of Python (\<open>str.isalpha\<close>, \<open>str.isdigit\<close>, \<open>str.isalnum\<close>, \<open>str.lower\<close>)
  their values on that range.
\<close>

text \<open>Exceptions of the Python run time that a scan may raise.\<close>

datatype py_error = TypeError | ValueError | KeyError | AttributeError

text \<open>
  The attribute of a token is the Python string \<open>'-'\<close>, \<open>'SYM:n'\<close> or \<open>'CONST:n'\<close>;
  the model keeps the tag and the index \<open>n\<close> (\<open>CONSTANT n\<close> for \<open>'CONST:n'\<close>).
\<close>

datatype attr = Dash | SYM nat | CONSTANT nat

record token =
  tok_code :: nat
  tok_value :: string
  tok_attr :: attr
  tok_line :: nat
  tok_col :: nat

text \<open>The keys of \<open>LexError.ERROR_TYPES\<close>.\<close>

datatype error_type =
    ILLEGAL_CHAR | ILLEGAL_ID | ILLEGAL_NUMBER | ILLEGAL_HEX | ILLEGAL_OCT | ILLEGAL_FLOAT
  | UNCLOSED_STRING | UNCLOSED_CHAR | UNCLOSED_COMMENT | EMPTY_CHAR | MULTI_CHAR
  | ILLEGAL_ESCAPE | LEADING_ZERO

text \<open>
  The \<open>extra_info\<close> of an error is one of a fixed set of explanatory sentences (or the
  empty string, \<open>NoInfo\<close>); each sentence is one constructor.
\<close>

datatype extra_info =
    NoInfo
  | IdStartsWithDigit
  | HexIllegalChars
  | HexMissingDigits
  | OctHas8or9
  | FloatMissingDigits
  | FloatMultipleDots
  | ExpMissingDigits
  | LetterAfterNumber

record lexerror =
  err_type :: error_type
  err_line :: nat
  err_col :: nat
  err_value :: string
  err_info :: extra_info

definition LexError :: "error_type \<Rightarrow> nat \<Rightarrow> nat \<Rightarrow> string \<Rightarrow> extra_info \<Rightarrow> lexerror" where
  "LexError t l c v i = \<lparr>err_type = t, err_line = l, err_col = c, err_value = v, err_info = i\<rparr>"

record lexer =
  src :: string
  pos :: nat
  line :: nat
  col :: nat
  tokens :: "token list"
  errors :: "lexerror list"
  sym_table :: "string list"
  const_table :: "string list"

text \<open>\<open>Lexer.__init__\<close>\<close>

definition Lexer :: "string \<Rightarrow> lexer" where
  "Lexer source = \<lparr>src = source, pos = 0, line = 1, col = 1, tokens = [], errors = [],
     sym_table = [], const_table = []\<rparr>"

subsection \<open>Constant tables\<close>

definition KEYWORDS :: "string list" where
  "KEYWORDS = [''if'', ''then'', ''else'', ''begin'', ''end'', ''int'', ''float'', ''char'',
     ''while'', ''do'', ''return'', ''for'', ''void'', ''break'', ''continue'',
     ''switch'', ''case'', ''default'', ''struct'', ''const'', ''typedef'']"

definition SINGLE_OPS :: "string list" where
  "SINGLE_OPS = [''+'', ''-'', ''*'', ''/'', ''%'', ''='', ''&'', ''|'', ''^'', ''~'', ''!'',
     ''<'', ''>'']"

definition DOUBLE_OPS :: "string list" where
  "DOUBLE_OPS = [''++'', ''--'', ''+='', ''-='', ''*='', ''/='', ''%='', ''&&'', ''||'',
     ''<<'', ''>>'', ''&='', ''|='', ''^='', ''<='', ''>='', ''<>'', ''=='', ''!='', ''->'']"

definition TRIPLE_OPS :: "string list" where
  "TRIPLE_OPS = [''<<='', ''>>='']"

definition DELIMITERS :: "string list" where
  "DELIMITERS = [''('', '')'', ''['', '']'', ''{'', ''}'', '';'', ''#'', '','', '':'', ''.'']"

definition CODE :: "(string \<times> nat) list" where
  "CODE = [
     (''if'', 1), (''then'', 2), (''else'', 3), (''begin'', 4), (''end'', 5),
     (''int'', 6), (''float'', 7), (''char'', 8), (''while'', 9), (''do'', 10),
     (''return'', 11), (''for'', 12), (''void'', 13), (''break'', 14), (''continue'', 15),
     (''switch'', 16), (''case'', 17), (''default'', 18), (''struct'', 19),
     (''const'', 20), (''typedef'', 21),
     (''ID'', 50), (''INT'', 51), (''FLOAT'', 52), (''CHAR'', 53),
     (''STRING'', 54), (''HEX'', 55), (''OCT'', 56),
     (''+'', 60), (''-'', 61), (''*'', 62), (''/'', 63), (''%'', 64), (''='', 65),
     (''++'', 66), (''--'', 67), (''+='', 68), (''-='', 69), (''*='', 70), (''/='', 71),
     (''%='', 72),
     (''&'', 80), (''|'', 81), (''^'', 82), (''~'', 83), (''<<'', 84), (''>>'', 85),
     (''&='', 86), (''|='', 87), (''^='', 88), (''<<='', 89), (''>>='', 90),
     (''&&'', 100), (''||'', 101), (''!'', 102),
     (''<'', 110), (''>'', 111), (''<='', 112), (''>='', 113), (''<>'', 114), (''=='', 115),
     (''!='', 116),
     (''->'', 120),
     (''('', 130), ('')'', 131), (''['', 132), ('']'', 133), (''{'', 134), (''}'', 135),
     ('';'', 136), (''#'', 137), ('','', 138), ('':'', 139), (''.'', 140)]"

text \<open>The values of \<open>ESCAPE_CHARS\<close> are given as code points.\<close>

definition ESCAPE_CHARS :: "(char \<times> nat) list" where
  "ESCAPE_CHARS = [(CHR ''n'', 10), (CHR ''t'', 9), (CHR ''r'', 13), (CHR ''0'', 0),
     (CHR 0x5C, 92), (CHR 0x27, 39), (CHR 0x22, 34), (CHR ''a'', 7),
     (CHR ''b'', 8), (CHR ''f'', 12), (CHR ''v'', 11)]"

text \<open>
  \<open>Token(CODE[key], value, attr, line, col)\<close>: the subscript raises \<open>KeyError\<close> when the key
  is absent.
\<close>

definition Token :: "string \<Rightarrow> string \<Rightarrow> attr \<Rightarrow> nat \<Rightarrow> nat \<Rightarrow> py_error + token" where
  "Token key v a l c =
     (case map_of CODE key of
        None \<Rightarrow> Inl KeyError
      | Some cd \<Rightarrow> Inr \<lparr>tok_code = cd, tok_value = v, tok_attr = a, tok_line = l, tok_col = c\<rparr>)"

subsection \<open>Character classes of Python on the code points 0 to 255\<close>

definition ord :: "char \<Rightarrow> nat" where
  "ord c = of_char c"

definition isdecimal :: "char \<Rightarrow> bool" where
  "isdecimal c = (48 \<le> ord c \<and> ord c \<le> 57)"

definition isdigit :: "char \<Rightarrow> bool" where
  "isdigit c = (isdecimal c \<or> ord c = 178 \<or> ord c = 179 \<or> ord c = 185)"

definition isalpha :: "char \<Rightarrow> bool" where
  "isalpha c = (let n = ord c in
     (65 \<le> n \<and> n \<le> 90) \<or> (97 \<le> n \<and> n \<le> 122) \<or> n = 170 \<or> n = 181 \<or> n = 186 \<or>
     (192 \<le> n \<and> n \<le> 214) \<or> (216 \<le> n \<and> n \<le> 246) \<or> 248 \<le> n)"

definition isalnum :: "char \<Rightarrow> bool" where
  "isalnum c = (isalpha c \<or> isdigit c \<or> ord c = 188 \<or> ord c = 189 \<or> ord c = 190)"

definition lower :: "char \<Rightarrow> char" where
  "lower c = (let n = ord c in
     if (65 \<le> n \<and> n \<le> 90) \<or> (192 \<le> n \<and> n \<le> 214) \<or> (216 \<le> n \<and> n \<le> 222)
     then char_of (n + 32) else c)"

text \<open>The test \<open>isalnum() or == '_'\<close> that every identifier-run loop of the source uses.\<close>

definition is_idchar :: "char \<Rightarrow> bool" where
  "is_idchar c = (isalnum c \<or> c = CHR ''_'')"

subsection \<open>Identifier and constant table\<close>

text \<open>\<open>list.index\<close>: the first position of the value, \<open>ValueError\<close> when it is absent.\<close>

fun index :: "'a list \<Rightarrow> 'a \<Rightarrow> nat option" where
  "index [] x = None"
| "index (y # ys) x = (if y = x then Some 0 else map_option Suc (index ys x))"

definition add_sym :: "lexer \<Rightarrow> string \<Rightarrow> py_error + (lexer \<times> nat)" where
  "add_sym s name =
     (let s1 = (if name \<notin> set (sym_table s) then s\<lparr>sym_table := sym_table s @ [name]\<rparr> else s)
      in case index (sym_table s1) name of
           None \<Rightarrow> Inl ValueError
         | Some i \<Rightarrow> Inr (s1, i))"

definition add_const :: "lexer \<Rightarrow> string \<Rightarrow> py_error + (lexer \<times> nat)" where
  "add_const s val =
     (let s1 = (if val \<notin> set (const_table s) then s\<lparr>const_table := const_table s @ [val]\<rparr> else s)
      in case index (const_table s1) val of
           None \<Rightarrow> Inl ValueError
         | Some i \<Rightarrow> Inr (s1, i))"

subsection \<open>Cursor\<close>

text \<open>\<open>_char\<close>: the current character, \<open>None\<close> at the end of the text.\<close>

definition cur_char :: "lexer \<Rightarrow> char option" where
  "cur_char s = (if pos s < length (src s) then Some (src s ! pos s) else None)"

definition peek :: "lexer \<Rightarrow> nat \<Rightarrow> char option" where
  "peek s offset = (let idx = pos s + offset in
     if idx < length (src s) then Some (src s ! idx) else None)"

text \<open>
  \<open>_advance\<close> returns the current character and moves the cursor; the model returns the
  new state, the character returned being \<open>cur_char\<close> of the old one.
\<close>

definition advance :: "lexer \<Rightarrow> lexer" where
  "advance s =
     (case cur_char s of
        None \<Rightarrow> s
      | Some ch \<Rightarrow>
          if ch = CHR 0x0A then s\<lparr>pos := pos s + 1, line := line s + 1, col := 1\<rparr>
          else s\<lparr>pos := pos s + 1, col := col s + 1\<rparr>)"

lemma advance_src [simp]: "src (advance s) = src s"
  by (simp add: advance_def split: option.splits)

lemma advance_pos_Some: "cur_char s = Some c \<Longrightarrow> pos (advance s) = Suc (pos s)"
  by (simp add: advance_def)

lemma cur_char_Some_lt: "cur_char s = Some c \<Longrightarrow> pos s < length (src s)"
  by (simp add: cur_char_def split: if_splits)

lemma advance_measure:
  "cur_char s = Some c \<Longrightarrow> length (src s) - pos (advance s) < length (src s) - pos s"
  using cur_char_Some_lt [of s c] by (simp add: advance_pos_Some)

text \<open>
  The loop \<open>while self._char() and P(self._char()): acc += self._advance()\<close>, which the
  source writes out in every scanner.
\<close>

function consume_while :: "(char \<Rightarrow> bool) \<Rightarrow> lexer \<Rightarrow> string \<Rightarrow> lexer \<times> string" where
  "consume_while P s acc =
     (case cur_char s of
        None \<Rightarrow> (s, acc)
      | Some c \<Rightarrow> if P c then consume_while P (advance s) (acc @ [c]) else (s, acc))"
  by pat_completeness auto
termination
  by (relation "measure (\<lambda>(P, s, acc). length (src s) - pos s)") (auto simp: advance_measure)

declare consume_while.simps [simp del]

lemma consume_while_src [simp]: "src (fst (consume_while P s acc)) = src s"
  by (induction P s acc rule: consume_while.induct)
     (subst consume_while.simps, simp split: option.splits)

lemma consume_while_pos: "pos s \<le> pos (fst (consume_while P s acc))"
proof (induction P s acc rule: consume_while.induct)
  case (1 P s acc)
  show ?case
  proof (cases "cur_char s")
    case None
    then show ?thesis by (subst consume_while.simps) simp
  next
    case (Some c)
    show ?thesis
    proof (cases "P c")
      case True
      with Some "1.IH" have "pos (advance s) \<le> pos (fst (consume_while P (advance s) (acc @ [c])))"
        by simp
      with Some True show ?thesis
        by (subst consume_while.simps) (simp add: advance_pos_Some)
    next
      case False
      with Some show ?thesis by (subst consume_while.simps) simp
    qed
  qed
qed

text \<open>
  How a scan moves the cursor: \<open>advanced\<close> when it stays in the same text and does not go
  back, \<open>moved\<close> when it consumes at least one character.
\<close>

definition advanced :: "lexer \<Rightarrow> lexer \<Rightarrow> bool" where
  "advanced s s' = (src s' = src s \<and> pos s \<le> pos s')"

definition moved :: "lexer \<Rightarrow> lexer \<Rightarrow> bool" where
  "moved s s' = (src s' = src s \<and> pos s < pos s')"

lemma pos_advance: "pos (advance s) = (if pos s < length (src s) then Suc (pos s) else pos s)"
  by (simp add: advance_def cur_char_def)

lemma cur_char_Some_iff: "cur_char s = Some c \<longleftrightarrow> pos s < length (src s) \<and> src s ! pos s = c"
  by (auto simp: cur_char_def)

lemma cur_char_None_iff: "cur_char s = None \<longleftrightarrow> length (src s) \<le> pos s"
  by (auto simp: cur_char_def)

lemma consume_while_advanced: "consume_while P s acc = (s', v) \<Longrightarrow> advanced s s'"
  using consume_while_src [of P s acc] consume_while_pos [of s P acc]
  by (simp add: advanced_def)

lemma consume_while_moved:
  assumes "cur_char s = Some c" and "P c" and "consume_while P s acc = (s', v)"
  shows "moved s s'"
proof -
  have "consume_while P (advance s) (acc @ [c]) = (s', v)"
    using assms by (subst (asm) consume_while.simps) simp
  then have "advanced (advance s) s'" by (rule consume_while_advanced)
  with assms(1) show ?thesis
    by (auto simp: moved_def advanced_def pos_advance cur_char_Some_iff)
qed

section \<open>Whitespace and comments\<close>

text \<open>
  \<open>_skip_ws\<close>: the loop test is \<open>self._char() in ' \t\r\n'\<close>. At the end of the text
  \<open>_char\<close> returns \<open>None\<close>, and \<open>None in <str>\<close> raises \<open>TypeError\<close>.
\<close>

function skip_ws :: "lexer \<Rightarrow> py_error + lexer" where
  "skip_ws s =
     (case cur_char s of
        None \<Rightarrow> Inl TypeError
      | Some c \<Rightarrow>
          if c \<in> set [CHR '' '', CHR 0x09, CHR 0x0D, CHR 0x0A] then skip_ws (advance s)
          else Inr s)"
  by pat_completeness auto
termination
  by (relation "measure (\<lambda>s. length (src s) - pos s)") (auto simp: advance_measure)

declare skip_ws.simps [simp del]

text \<open>The loop of a \<open>/* ... */\<close> comment, from after the opening \<open>/*\<close>.\<close>

function block_comment :: "nat \<Rightarrow> nat \<Rightarrow> lexer \<Rightarrow> lexer" where
  "block_comment sl sc s =
     (case cur_char s of
        None \<Rightarrow> s\<lparr>errors := errors s @ [LexError UNCLOSED_COMMENT sl sc ''/*'' NoInfo]\<rparr>
      | Some c \<Rightarrow>
          if c = CHR ''*'' \<and> peek s 1 = Some (CHR ''/'') then advance (advance s)
          else block_comment sl sc (advance s))"
  by pat_completeness auto
termination
  by (relation "measure (\<lambda>(sl, sc, s). length (src s) - pos s)") (auto simp: advance_measure)

declare block_comment.simps [simp del]

text \<open>\<open>_skip_comment\<close> returns whether a comment was skipped, with the new state.\<close>

definition skip_comment :: "lexer \<Rightarrow> lexer \<times> bool" where
  "skip_comment s =
     (if cur_char s \<noteq> Some (CHR ''/'') then (s, False)
      else if peek s 1 = Some (CHR ''/'') then
        (let (s1, skipped) = consume_while (\<lambda>c. c \<noteq> CHR 0x0A) s [] in (s1, True))
      else if peek s 1 = Some (CHR ''*'') then
        (let sl = line s; sc = col s in (block_comment sl sc (advance (advance s)), True))
      else (s, False))"

section \<open>Identifiers and keywords\<close>

definition scan_id :: "lexer \<Rightarrow> py_error + (lexer \<times> token)" where
  "scan_id s =
     (let sl = line s; sc = col s;
          (s1, val) = consume_while is_idchar s []
      in if map lower val \<in> set KEYWORDS then
           (case Token (map lower val) val Dash sl sc of
              Inl e \<Rightarrow> Inl e
            | Inr tok \<Rightarrow> Inr (s1, tok))
         else
           (case add_sym s1 val of
              Inl e \<Rightarrow> Inl e
            | Inr (s2, idx) \<Rightarrow>
                (case Token ''ID'' val (SYM idx) sl sc of
                   Inl e \<Rightarrow> Inl e
                 | Inr tok \<Rightarrow> Inr (s2, tok))))"

text \<open>\<open>_scan_illegal_id\<close> is defined by the source and called from nowhere.\<close>

definition scan_illegal_id :: "lexer \<Rightarrow> lexer \<times> token option" where
  "scan_illegal_id s =
     (let sl = line s; sc = col s;
          (s1, val) = consume_while is_idchar s []
      in (s1\<lparr>errors := errors s1 @ [LexError ILLEGAL_ID sl sc val IdStartsWithDigit]\<rparr>, None))"

section \<open>Numbers\<close>

text \<open>
  A scanner that ends with \<open>idx = self._add_const(val); return Token(CODE[k], val,
  f'CONST:{idx}', sl, sc)\<close>.
\<close>

definition const_token :: "string \<Rightarrow> lexer \<Rightarrow> string \<Rightarrow> nat \<Rightarrow> nat \<Rightarrow> py_error + (lexer \<times> token option)" where
  "const_token key s val sl sc =
     (case add_const s val of
        Inl e \<Rightarrow> Inl e
      | Inr (s1, idx) \<Rightarrow>
          (case Token key val (CONSTANT idx) sl sc of
             Inl e \<Rightarrow> Inl e
           | Inr tok \<Rightarrow> Inr (s1, Some tok)))"

text \<open>\<open>self.errors.append(LexError(...)); return None\<close>\<close>

definition fail :: "lexer \<Rightarrow> error_type \<Rightarrow> nat \<Rightarrow> nat \<Rightarrow> string \<Rightarrow> extra_info \<Rightarrow> py_error + (lexer \<times> token option)" where
  "fail s t sl sc v i = Inr (s\<lparr>errors := errors s @ [LexError t sl sc v i]\<rparr>, None)"

definition scan_hex :: "nat \<Rightarrow> nat \<Rightarrow> lexer \<Rightarrow> py_error + (lexer \<times> token option)" where
  "scan_hex sl sc s =
     (case (cur_char s, cur_char (advance s)) of
        (Some a, Some b) \<Rightarrow>
          (let val = [a, b];
               (s1, hex_digits) =
                 consume_while (\<lambda>c. isdigit c \<or> lower c \<in> set ''abcdef'') (advance (advance s)) []
           in if hex_digits = [] then
                (if (case cur_char s1 of None \<Rightarrow> False | Some c \<Rightarrow> isalpha c) then
                   (let (s2, hex_digits2) = consume_while is_idchar s1 hex_digits
                    in fail s2 ILLEGAL_HEX sl sc (val @ hex_digits2) HexIllegalChars)
                 else fail s1 ILLEGAL_HEX sl sc val HexMissingDigits)
              else const_token ''HEX'' s1 (val @ hex_digits) sl sc)
      | _ \<Rightarrow> Inl TypeError)"

text \<open>
  The digit loop of \<open>_scan_octal\<close>. The flag of the result says that the loop met an
  \<open>8\<close> or a \<open>9\<close>, recorded the error and made the scanner return \<open>None\<close>.
\<close>

function octal_digits :: "nat \<Rightarrow> nat \<Rightarrow> lexer \<Rightarrow> string \<Rightarrow> lexer \<times> string \<times> bool" where
  "octal_digits sl sc s val =
     (case cur_char s of
        None \<Rightarrow> (s, val, False)
      | Some c \<Rightarrow>
          if isdigit c then
            (if c \<in> set ''89'' then
               (let (s1, val1) = consume_while isdigit s val
                in (s1\<lparr>errors := errors s1 @ [LexError ILLEGAL_OCT sl sc val1 OctHas8or9]\<rparr>,
                    val1, True))
             else octal_digits sl sc (advance s) (val @ [c]))
          else (s, val, False))"
  by pat_completeness auto
termination
  by (relation "measure (\<lambda>(sl, sc, s, val). length (src s) - pos s)")
     (auto simp: advance_measure)

declare octal_digits.simps [simp del]

text \<open>
  The end of \<open>_scan_decimal_part\<close> (from the test for a letter after the number), its
  exponent part, and the whole of it. Each early \<open>return\<close> of the source is a branch.
\<close>

definition decimal_part_suffix :: "lexer \<Rightarrow> string \<Rightarrow> bool \<Rightarrow> bool \<Rightarrow> nat \<Rightarrow> nat \<Rightarrow> py_error + (lexer \<times> token option)" where
  "decimal_part_suffix s val has_dot has_exp sl sc =
     (if (case cur_char s of None \<Rightarrow> False | Some c \<Rightarrow> isalpha c \<or> c = CHR ''_'') then
        (let (s1, extra) = consume_while is_idchar s []
         in fail s1 ILLEGAL_NUMBER sl sc (val @ extra) LetterAfterNumber)
      else if val = [] then Inr (s, None)
      else const_token (if has_dot \<or> has_exp then ''FLOAT'' else ''INT'') s val sl sc)"

definition decimal_part_exp :: "lexer \<Rightarrow> string \<Rightarrow> bool \<Rightarrow> nat \<Rightarrow> nat \<Rightarrow> py_error + (lexer \<times> token option)" where
  "decimal_part_exp s val has_dot sl sc =
     (case cur_char s of
        None \<Rightarrow> decimal_part_suffix s val has_dot False sl sc
      | Some e \<Rightarrow>
          if lower e = CHR ''e'' then
            (let val1 = val @ [e]; s1 = advance s;
                 (s2, val2) =
                   (case cur_char s1 of
                      None \<Rightarrow> (s1, val1)
                    | Some sg \<Rightarrow>
                        if sg = CHR ''+'' \<or> sg = CHR ''-'' then (advance s1, val1 @ [sg])
                        else (s1, val1));
                 (s3, exp_digits) = consume_while isdigit s2 []
             in if exp_digits = [] then fail s3 ILLEGAL_FLOAT sl sc val2 ExpMissingDigits
                else decimal_part_suffix s3 (val2 @ exp_digits) has_dot True sl sc)
          else decimal_part_suffix s val has_dot False sl sc)"

definition scan_decimal_part :: "string \<Rightarrow> nat \<Rightarrow> nat \<Rightarrow> lexer \<Rightarrow> py_error + (lexer \<times> token option)" where
  "scan_decimal_part int_part sl sc s =
     (let val = int_part in
      if cur_char s = Some (CHR ''.'') then
        (if peek s 1 = Some (CHR ''.'') then
           (if val \<noteq> [] then const_token ''INT'' s val sl sc else Inr (s, None))
         else
           (let val1 = val @ ''.''; s1 = advance s;
                (s2, frac_digits) = consume_while isdigit s1 []
            in if frac_digits = [] \<and> int_part = [] then
                 fail s2 ILLEGAL_FLOAT sl sc val1 FloatMissingDigits
               else
                 (let val2 = val1 @ frac_digits in
                  if cur_char s2 = Some (CHR ''.'') then
                    (let (s3, extra) = consume_while (\<lambda>c. isdigit c \<or> c = CHR ''.'') s2 []
                     in fail s3 ILLEGAL_FLOAT sl sc (val2 @ extra) FloatMultipleDots)
                  else decimal_part_exp s2 val2 True sl sc)))
      else decimal_part_exp s val False sl sc)"

definition scan_decimal :: "nat \<Rightarrow> nat \<Rightarrow> lexer \<Rightarrow> py_error + (lexer \<times> token option)" where
  "scan_decimal sl sc s =
     (let (s1, val) = consume_while isdigit s [] in scan_decimal_part val sl sc s1)"

text \<open>
  \<open>_scan_octal\<close> starts with \<open>val = self._advance()\<close>. It is called with a current
  character only (the \<open>0\<close> that \<open>_scan_num\<close> has seen); the model gives the other case,
  in which the source would go on with \<open>val = None\<close>, as an error.
\<close>

definition scan_octal :: "nat \<Rightarrow> nat \<Rightarrow> lexer \<Rightarrow> py_error + (lexer \<times> token option)" where
  "scan_octal sl sc s =
     (case cur_char s of
        None \<Rightarrow> Inl TypeError
      | Some z \<Rightarrow>
          (let (s1, val, stopped) = octal_digits sl sc (advance s) [z]
           in if stopped then Inr (s1, None)
              else if (case cur_char s1 of None \<Rightarrow> False | Some c \<Rightarrow> isalpha c) then
                (let (s2, val2) = consume_while is_idchar s1 val
                 in fail s2 ILLEGAL_NUMBER sl sc val2 NoInfo)
              else if cur_char s1 = Some (CHR ''.'')
                      \<and> (case peek s1 1 of None \<Rightarrow> False | Some d \<Rightarrow> isdigit d) then
                scan_decimal_part val sl sc s1
              else const_token ''OCT'' s1 val sl sc))"

definition scan_num :: "lexer \<Rightarrow> py_error + (lexer \<times> token option)" where
  "scan_num s =
     (let sl = line s; sc = col s in
      if cur_char s = Some (CHR ''0'') \<and> (peek s 1 = Some (CHR ''x'') \<or> peek s 1 = Some (CHR ''X''))
      then scan_hex sl sc s
      else if cur_char s = Some (CHR ''0'')
              \<and> (case peek s 1 of None \<Rightarrow> False | Some d \<Rightarrow> isdigit d)
      then scan_octal sl sc s
      else scan_decimal sl sc s)"

definition scan_leading_dot_number :: "lexer \<Rightarrow> py_error + (lexer \<times> token option)" where
  "scan_leading_dot_number s =
     (let sl = line s; sc = col s in
      if cur_char s = Some (CHR ''.'') \<and> (case peek s 1 of None \<Rightarrow> False | Some d \<Rightarrow> isdigit d)
      then scan_decimal_part [] sl sc s
      else Inr (s, None))"

section \<open>Character and string literals\<close>

text \<open>How a run of a loop body ends.\<close>

datatype loop_ctl = Continue | Break

text \<open>
  \<open>int(s, base)\<close> on a string of characters that are digits or letters (the only strings
  the scanners pass): \<open>ValueError\<close> when the string is empty or a character is not a
  digit of the base. \<open>chr(n)\<close> raises \<open>ValueError\<close> beyond the last code point.
\<close>

definition digit_value :: "char \<Rightarrow> nat option" where
  "digit_value c = (let n = ord c in
     if 48 \<le> n \<and> n \<le> 57 then Some (n - 48)
     else if 97 \<le> n \<and> n \<le> 122 then Some (n - 87)
     else if 65 \<le> n \<and> n \<le> 90 then Some (n - 55)
     else None)"

fun int_digits :: "nat \<Rightarrow> nat \<Rightarrow> string \<Rightarrow> py_error + nat" where
  "int_digits b acc [] = Inr acc"
| "int_digits b acc (c # cs) =
     (case digit_value c of
        None \<Rightarrow> Inl ValueError
      | Some d \<Rightarrow> if d < b then int_digits b (acc * b + d) cs else Inl ValueError)"

definition py_int :: "string \<Rightarrow> nat \<Rightarrow> py_error + nat" where
  "py_int s b = (if s = [] then Inl ValueError else int_digits b 0 s)"

definition py_chr :: "nat \<Rightarrow> py_error + nat" where
  "py_chr n = (if n < 1114112 then Inr n else Inl ValueError)"

definition chr_int :: "string \<Rightarrow> nat \<Rightarrow> py_error + nat" where
  "chr_int s b = (case py_int s b of Inl e \<Rightarrow> Inl e | Inr n \<Rightarrow> py_chr n)"

definition is_hex_digit :: "char \<Rightarrow> bool" where
  "is_hex_digit c = (lower c \<in> set ''0123456789abcdef'')"

definition is_oct_digit :: "char \<Rightarrow> bool" where
  "is_oct_digit c = (isdigit c \<and> ord c < ord (CHR ''8''))"

text \<open>
  One round of \<open>for _ in range(2): if self._char() and P(self._char()): ...\<close>: the
  character, when it passes the test, is consumed and appended to the digits of the escape
  and to the text of the literal.
\<close>

definition escape_digit :: "(char \<Rightarrow> bool) \<Rightarrow> lexer \<times> string \<times> string \<Rightarrow> lexer \<times> string \<times> string" where
  "escape_digit P x =
     (case x of (s, digits, disp) \<Rightarrow>
        (case cur_char s of
           None \<Rightarrow> (s, digits, disp)
         | Some c \<Rightarrow> if P c then (advance s, digits @ [c], disp @ [c]) else (s, digits, disp)))"

text \<open>\<open>_scan_char\<close> from the comment "check for extra characters" on.\<close>

definition scan_char_rest :: "nat \<Rightarrow> nat \<Rightarrow> lexer \<Rightarrow> string \<Rightarrow> py_error + (lexer \<times> token option)" where
  "scan_char_rest sl sc s display_val =
     (let (s1, extra_chars) = consume_while (\<lambda>c. c \<noteq> CHR 0x27 \<and> c \<noteq> CHR 0x0A) s [];
          display_val1 = display_val @ extra_chars
      in if cur_char s1 \<noteq> Some (CHR 0x27) then
           fail s1 UNCLOSED_CHAR sl sc display_val1 NoInfo
         else
           (let display_val2 = display_val1 @ [CHR 0x27]; s2 = advance s1
            in if extra_chars \<noteq> [] then fail s2 MULTI_CHAR sl sc display_val2 NoInfo
               else const_token ''CHAR'' s2 display_val2 sl sc))"

definition scan_char :: "lexer \<Rightarrow> py_error + (lexer \<times> token option)" where
  "scan_char s0 =
     (let sl = line s0; sc = col s0; s = advance s0 in
      case cur_char s of
        None \<Rightarrow> fail s UNCLOSED_CHAR sl sc [CHR 0x27] NoInfo
      | Some c \<Rightarrow>
          if c = CHR 0x0A then fail s UNCLOSED_CHAR sl sc [CHR 0x27] NoInfo
          else if c = CHR 0x27 then fail (advance s) EMPTY_CHAR sl sc [CHR 0x27, CHR 0x27] NoInfo
          else if c = CHR 0x5C then
            (let display_val = [CHR 0x27, c]; s1 = advance s in
             case cur_char s1 of
               None \<Rightarrow> fail s1 UNCLOSED_CHAR sl sc display_val NoInfo
             | Some escape_char \<Rightarrow>
                 (let display_val1 = display_val @ [escape_char]; s2 = advance s1 in
                  if escape_char = CHR ''x'' then
                    (let (s3, hex_val, display_val2) =
                           escape_digit is_hex_digit
                             (escape_digit is_hex_digit (s2, [], display_val1))
                     in if hex_val \<noteq> [] then
                          (case chr_int hex_val 16 of
                             Inl e \<Rightarrow> Inl e
                           | Inr char_val \<Rightarrow> scan_char_rest sl sc s3 display_val2)
                        else
                          (let s4 = s3\<lparr>errors := errors s3
                                      @ [LexError ILLEGAL_ESCAPE sl sc display_val2 NoInfo]\<rparr>;
                               (s5, skipped) =
                                 consume_while (\<lambda>c. c \<noteq> CHR 0x27 \<and> c \<noteq> CHR 0x0A) s4 []
                           in Inr (if cur_char s5 = Some (CHR 0x27) then advance s5 else s5, None)))
                  else if map_of ESCAPE_CHARS escape_char \<noteq> None then
                    scan_char_rest sl sc s2 display_val1
                  else if isdigit escape_char then
                    (let (s3, oct_val, display_val2) =
                           escape_digit is_oct_digit
                             (escape_digit is_oct_digit (s2, [escape_char], display_val1))
                     in case chr_int oct_val 8 of
                          Inl e \<Rightarrow> Inl e
                        | Inr char_val \<Rightarrow> scan_char_rest sl sc s3 display_val2)
                  else
                    scan_char_rest sl sc
                      (s2\<lparr>errors := errors s2
                          @ [LexError ILLEGAL_ESCAPE sl sc [CHR 0x5C, escape_char] NoInfo]\<rparr>)
                      display_val1))
          else scan_char_rest sl sc (advance s) [CHR 0x27, c])"

lemma escape_digit_src [simp]: "src (fst (escape_digit P x)) = src (fst x)"
  by (cases x) (simp add: escape_digit_def split: option.splits)

lemma escape_digit_pos: "pos (fst x) \<le> pos (fst (escape_digit P x))"
  by (cases x) (simp add: escape_digit_def advance_pos_Some split: option.splits)

lemma escape_digit_twice_advanced:
  "escape_digit P (escape_digit P (s, d, v)) = (s', d', v') \<Longrightarrow> advanced s s'"
proof -
  assume a: "escape_digit P (escape_digit P (s, d, v)) = (s', d', v')"
  have "pos s \<le> pos (fst (escape_digit P (s, d, v)))"
    using escape_digit_pos [of "(s, d, v)" P] by simp
  moreover have "pos (fst (escape_digit P (s, d, v)))
      \<le> pos (fst (escape_digit P (escape_digit P (s, d, v))))"
    by (rule escape_digit_pos)
  moreover have "src (fst (escape_digit P (escape_digit P (s, d, v)))) = src s"
    by simp
  ultimately show ?thesis using a by (simp add: advanced_def)
qed

text \<open>
  One run of the body of the loop of \<open>_scan_string\<close>, on the state, the raw text \<open>val\<close>
  and the decoded \<open>string_content\<close> (code points). \<open>Break\<close> stands for the loop test
  failing and for the \<open>break\<close> after a backslash at the end of the line or of the text.
\<close>

definition string_char :: "nat \<Rightarrow> nat \<Rightarrow> lexer \<Rightarrow> string \<Rightarrow> nat list \<Rightarrow> py_error + ((lexer \<times> string \<times> nat list) \<times> loop_ctl)" where
  "string_char sl sc s val string_content =
     (case cur_char s of
        None \<Rightarrow> Inr ((s, val, string_content), Break)
      | Some c \<Rightarrow>
          if c = CHR 0x22 \<or> c = CHR 0x0A then Inr ((s, val, string_content), Break)
          else if c = CHR 0x5C then
            (let val1 = val @ [c]; s1 = advance s in
             case cur_char s1 of
               None \<Rightarrow> Inr ((s1, val1, string_content), Break)
             | Some escape_char \<Rightarrow>
                 if escape_char = CHR 0x0A then Inr ((s1, val1, string_content), Break)
                 else
                   (let val2 = val1 @ [escape_char]; s2 = advance s1 in
                    if escape_char = CHR ''x'' then
                      (let (s3, hex_val, val3) =
                             escape_digit is_hex_digit (escape_digit is_hex_digit (s2, [], val2))
                       in if hex_val \<noteq> [] then
                            (case chr_int hex_val 16 of
                               Inl e \<Rightarrow> Inl e
                             | Inr ch \<Rightarrow> Inr ((s3, val3, string_content @ [ch]), Continue))
                          else
                            Inr ((s3\<lparr>errors := errors s3
                                    @ [LexError ILLEGAL_ESCAPE sl sc [CHR 0x5C, CHR ''x''] NoInfo]\<rparr>,
                                  val3, string_content), Continue))
                    else
                      (case map_of ESCAPE_CHARS escape_char of
                         Some ch \<Rightarrow> Inr ((s2, val2, string_content @ [ch]), Continue)
                       | None \<Rightarrow>
                           if isdigit escape_char then
                             (let (s3, oct_val, val3) =
                                    escape_digit is_oct_digit
                                      (escape_digit is_oct_digit (s2, [escape_char], val2))
                              in case chr_int oct_val 8 of
                                   Inl e \<Rightarrow> Inl e
                                 | Inr ch \<Rightarrow> Inr ((s3, val3, string_content @ [ch]), Continue))
                           else
                             Inr ((s2\<lparr>errors := errors s2
                                     @ [LexError ILLEGAL_ESCAPE sl sc [CHR 0x5C, escape_char] NoInfo]\<rparr>,
                                   val2, string_content @ [ord escape_char]), Continue))))
          else Inr ((advance s, val @ [c], string_content @ [ord c]), Continue))"

lemma string_char_moved:
  "string_char sl sc s val cont = Inr ((s', v, k), Continue) \<Longrightarrow> moved s s'"
  apply (auto simp: string_char_def Let_def split: option.splits if_splits prod.splits sum.splits
      dest!: escape_digit_twice_advanced)
       apply (auto simp: advanced_def moved_def pos_advance cur_char_Some_iff split: if_splits)
  done

lemma string_char_advanced:
  "string_char sl sc s val cont = Inr ((s', v, k), b) \<Longrightarrow> advanced s s'"
  apply (auto simp: string_char_def Let_def split: option.splits if_splits prod.splits sum.splits
      dest!: escape_digit_twice_advanced)
       apply (auto simp: advanced_def pos_advance cur_char_Some_iff split: if_splits)
  done

lemma moved_measure:
  "moved s s' \<Longrightarrow> pos s < length (src s) \<Longrightarrow> length (src s') - pos s' < length (src s) - pos s"
  by (auto simp: moved_def)

lemma string_char_Continue_lt:
  assumes "string_char sl sc s val cont = Inr (x, Continue)"
  shows "pos s < length (src s)"
proof (cases "cur_char s")
  case None
  with assms show ?thesis by (simp add: string_char_def)
next
  case (Some c)
  then show ?thesis by (simp add: cur_char_Some_iff)
qed

text \<open>The loop of \<open>_scan_string\<close>.\<close>

function string_chars :: "nat \<Rightarrow> nat \<Rightarrow> lexer \<Rightarrow> string \<Rightarrow> nat list \<Rightarrow> py_error + (lexer \<times> string \<times> nat list)" where
  "string_chars sl sc s val string_content =
     (case string_char sl sc s val string_content of
        Inl e \<Rightarrow> Inl e
      | Inr ((s1, val1, string_content1), Break) \<Rightarrow> Inr (s1, val1, string_content1)
      | Inr ((s1, val1, string_content1), Continue) \<Rightarrow>
          string_chars sl sc s1 val1 string_content1)"
  by pat_completeness auto
termination
  apply (relation "measure (\<lambda>(sl, sc, s, val, cont). length (src s) - pos s)")
   apply simp
  apply (auto dest: string_char_moved string_char_Continue_lt intro!: moved_measure)
  done

declare string_chars.simps [simp del]

definition scan_string :: "lexer \<Rightarrow> py_error + (lexer \<times> token option)" where
  "scan_string s0 =
     (let sl = line s0; sc = col s0; s = advance s0 in
      case string_chars sl sc s [CHR 0x22] [] of
        Inl e \<Rightarrow> Inl e
      | Inr (s1, val, string_content) \<Rightarrow>
          if cur_char s1 \<noteq> Some (CHR 0x22) then fail s1 UNCLOSED_STRING sl sc val NoInfo
          else const_token ''STRING'' (advance s1) (val @ [CHR 0x22]) sl sc)"

section \<open>Operators and delimiters\<close>

text \<open>Step 3 of \<open>_scan_op\<close> (the one-character operator), and steps 2 and 3.\<close>

definition scan_op_single :: "nat \<Rightarrow> nat \<Rightarrow> lexer \<Rightarrow> char \<Rightarrow> py_error + (lexer \<times> token option)" where
  "scan_op_single sl sc s ch =
     (if [ch] \<in> set SINGLE_OPS then
        (case Token [ch] [ch] Dash sl sc of
           Inl e \<Rightarrow> Inl e
         | Inr tok \<Rightarrow> Inr (advance s, Some tok))
      else Inr (s, None))"

definition scan_op_short :: "nat \<Rightarrow> nat \<Rightarrow> lexer \<Rightarrow> char \<Rightarrow> py_error + (lexer \<times> token option)" where
  "scan_op_short sl sc s ch =
     (case peek s 1 of
        None \<Rightarrow> scan_op_single sl sc s ch
      | Some p1 \<Rightarrow>
          if [ch, p1] \<in> set DOUBLE_OPS then
            (case Token [ch, p1] [ch, p1] Dash sl sc of
               Inl e \<Rightarrow> Inl e
             | Inr tok \<Rightarrow> Inr (advance (advance s), Some tok))
          else scan_op_single sl sc s ch)"

definition scan_op :: "lexer \<Rightarrow> py_error + (lexer \<times> token option)" where
  "scan_op s =
     (let sl = line s; sc = col s in
      case cur_char s of
        None \<Rightarrow> Inr (s, None)
      | Some ch \<Rightarrow>
          (case (peek s 1, peek s 2) of
             (Some p1, Some p2) \<Rightarrow>
               if [ch, p1, p2] \<in> set TRIPLE_OPS then
                 (case Token [ch, p1, p2] [ch, p1, p2] Dash sl sc of
                    Inl e \<Rightarrow> Inl e
                  | Inr tok \<Rightarrow> Inr (advance (advance (advance s)), Some tok))
               else scan_op_short sl sc s ch
           | _ \<Rightarrow> scan_op_short sl sc s ch))"

definition scan_delim :: "lexer \<Rightarrow> py_error + (lexer \<times> token option)" where
  "scan_delim s =
     (let sl = line s; sc = col s in
      case cur_char s of
        None \<Rightarrow> Inr (s, None)
      | Some ch \<Rightarrow>
          if [ch] \<in> set DELIMITERS then
            (case Token [ch] [ch] Dash sl sc of
               Inl e \<Rightarrow> Inl e
             | Inr tok \<Rightarrow> Inr (advance s, Some tok))
          else Inr (s, None))"

section \<open>Progress of the cursor\<close>

lemma add_const_advanced: "add_const s v = Inr (s', i) \<Longrightarrow> advanced s s'"
  by (auto simp: advanced_def add_const_def Let_def split: option.splits if_splits)

lemma add_sym_advanced: "add_sym s v = Inr (s', i) \<Longrightarrow> advanced s s'"
  by (auto simp: advanced_def add_sym_def Let_def split: option.splits if_splits)

lemma const_token_advanced: "const_token k s v sl sc = Inr (s', r) \<Longrightarrow> advanced s s'"
  by (auto simp: const_token_def split: sum.splits dest: add_const_advanced)

lemma fail_advanced: "fail s t sl sc v i = Inr (s', r) \<Longrightarrow> advanced s s'"
  by (auto simp: fail_def advanced_def)

lemma decimal_part_suffix_advanced:
  "decimal_part_suffix s val d e sl sc = Inr (s', r) \<Longrightarrow> advanced s s'"
  by (auto simp: decimal_part_suffix_def split: if_splits prod.splits
      dest!: consume_while_advanced const_token_advanced fail_advanced)
     (auto simp: advanced_def)

lemma decimal_part_exp_advanced:
  "decimal_part_exp s val d sl sc = Inr (s', r) \<Longrightarrow> advanced s s'"
  by (auto simp: decimal_part_exp_def Let_def split: if_splits prod.splits option.splits
      dest!: consume_while_advanced decimal_part_suffix_advanced fail_advanced)
     (auto simp: advanced_def pos_advance split: if_splits)

lemma scan_decimal_part_advanced:
  "scan_decimal_part ip sl sc s = Inr (s', r) \<Longrightarrow> advanced s s'"
  by (auto simp: scan_decimal_part_def Let_def split: if_splits prod.splits option.splits
      dest!: consume_while_advanced decimal_part_exp_advanced fail_advanced const_token_advanced)
     (auto simp: advanced_def pos_advance split: if_splits)

lemma octal_digits_advanced: "octal_digits sl sc s val = (s', v, b) \<Longrightarrow> advanced s s'"
proof (induction sl sc s val arbitrary: s' v b rule: octal_digits.induct)
  case (1 sl sc s val)
  from "1.prems" show ?case
    apply (subst (asm) octal_digits.simps)
    apply (auto split: option.splits if_splits prod.splits
        dest!: consume_while_advanced "1.IH")
      apply (auto simp: advanced_def pos_advance split: if_splits)
    done
qed

lemma scan_octal_moved:
  "cur_char s = Some c \<Longrightarrow> scan_octal sl sc s = Inr (s', r) \<Longrightarrow> moved s s'"
  by (auto simp: scan_octal_def Let_def split: if_splits prod.splits option.splits
      dest!: consume_while_advanced octal_digits_advanced scan_decimal_part_advanced
             fail_advanced const_token_advanced)
     (auto simp: advanced_def moved_def pos_advance cur_char_Some_iff split: if_splits)

lemma scan_hex_moved:
  "scan_hex sl sc s = Inr (s', r) \<Longrightarrow> moved s s'"
  by (auto simp: scan_hex_def Let_def split: if_splits prod.splits option.splits
      dest!: consume_while_advanced fail_advanced const_token_advanced)
     (auto simp: advanced_def moved_def pos_advance cur_char_Some_iff split: if_splits)

lemma scan_decimal_moved:
  assumes "cur_char s = Some c" and "isdigit c" and "scan_decimal sl sc s = Inr (s', r)"
  shows "moved s s'"
proof -
  obtain s1 val where cw: "consume_while isdigit s [] = (s1, val)"
    by (cases "consume_while isdigit s []")
  with assms(3) have "scan_decimal_part val sl sc s1 = Inr (s', r)"
    by (simp add: scan_decimal_def)
  then have "advanced s1 s'" by (rule scan_decimal_part_advanced)
  moreover have "moved s s1" using assms(1,2) cw by (rule consume_while_moved)
  ultimately show ?thesis by (auto simp: moved_def advanced_def)
qed

lemma scan_num_moved:
  "cur_char s = Some c \<Longrightarrow> isdigit c \<Longrightarrow> scan_num s = Inr (s', r) \<Longrightarrow> moved s s'"
  by (auto simp: scan_num_def Let_def split: if_splits
      dest: scan_hex_moved scan_octal_moved scan_decimal_moved)

lemma isdigit_dot: "isdigit d \<Longrightarrow> d \<noteq> CHR ''.''"
  by (auto simp: isdigit_def isdecimal_def ord_def)

lemma scan_leading_dot_number_moved:
  assumes "cur_char s = Some (CHR ''.'')" and "peek s 1 = Some d" and "isdigit d"
    and "scan_leading_dot_number s = Inr (s', r)"
  shows "moved s s'"
  using assms isdigit_dot [of d]
  by (auto simp: scan_leading_dot_number_def scan_decimal_part_def Let_def
      split: if_splits prod.splits option.splits
      dest!: consume_while_advanced decimal_part_exp_advanced fail_advanced const_token_advanced)
     (auto simp: advanced_def moved_def pos_advance cur_char_Some_iff split: if_splits)

lemma scan_char_rest_advanced:
  "scan_char_rest sl sc s d = Inr (s', r) \<Longrightarrow> advanced s s'"
  by (auto simp: scan_char_rest_def Let_def split: if_splits prod.splits option.splits
      dest!: consume_while_advanced fail_advanced const_token_advanced)
     (auto simp: advanced_def pos_advance split: if_splits)

lemma scan_char_moved:
  "cur_char s = Some c \<Longrightarrow> scan_char s = Inr (s', r) \<Longrightarrow> moved s s'"
  apply (auto simp: scan_char_def Let_def split: if_splits prod.splits option.splits sum.splits
      dest!: consume_while_advanced fail_advanced scan_char_rest_advanced
             escape_digit_twice_advanced)
  apply (auto simp: advanced_def moved_def pos_advance cur_char_Some_iff split: if_splits)
  done

lemma string_chars_Break:
  "string_char sl sc s val cont = Inr (r, Break) \<Longrightarrow> string_chars sl sc s val cont = Inr r"
  by (subst string_chars.simps) (simp split: prod.splits)

lemma string_chars_Continue:
  "string_char sl sc s val cont = Inr ((s1, v1, k1), Continue)
     \<Longrightarrow> string_chars sl sc s val cont = string_chars sl sc s1 v1 k1"
  by (subst string_chars.simps) simp

lemma string_chars_Inl:
  "string_char sl sc s val cont = Inl e \<Longrightarrow> string_chars sl sc s val cont = Inl e"
  by (subst string_chars.simps) simp

lemma string_chars_induct [consumes 1, case_names Break Continue]:
  assumes "string_chars sl sc s val cont = Inr r"
    and "\<And>s val cont. string_char sl sc s val cont = Inr (r, Break) \<Longrightarrow> P s val cont"
    and "\<And>s val cont s1 v1 k1.
        string_char sl sc s val cont = Inr ((s1, v1, k1), Continue)
        \<Longrightarrow> string_chars sl sc s1 v1 k1 = Inr r \<Longrightarrow> P s1 v1 k1 \<Longrightarrow> P s val cont"
  shows "P s val cont"
  using assms
proof (induction sl sc s val cont rule: string_chars.induct)
  case (1 sl sc s val cont)
  note run = "1.prems"(1) and brk = "1.prems"(2) and cont = "1.prems"(3)
  show ?case
  proof (cases "string_char sl sc s val cont")
    case (Inl e)
    with run show ?thesis by (simp add: string_chars_Inl)
  next
    case (Inr x)
    obtain s1 v1 k1 b where x: "x = ((s1, v1, k1), b)" by (metis prod_cases3 surj_pair)
    show ?thesis
    proof (cases b)
      case Break
      with Inr x run have "r = (s1, v1, k1)" by (simp add: string_chars_Break)
      with Inr x Break show ?thesis using brk by simp
    next
      case Continue
      with Inr x run have run1: "string_chars sl sc s1 v1 k1 = Inr r"
        by (simp add: string_chars_Continue)
      have "P s1 v1 k1"
        using "1.IH" [OF Inr, of "(s1, v1, k1)" b s1 "(v1, k1)" v1 k1] x Continue run1 brk cont
        by simp
      with Inr x Continue run1 show ?thesis using cont by simp
    qed
  qed
qed

lemma string_chars_advanced:
  assumes "string_chars sl sc s val cont = Inr (s', v, k)"
  shows "advanced s s'"
  using assms
proof (induction rule: string_chars_induct)
  case (Break s val cont)
  then show ?case by (rule string_char_advanced)
next
  case (Continue s val cont s1 v1 k1)
  then show ?case by (auto dest!: string_char_advanced simp: advanced_def)
qed

lemma scan_string_moved:
  "cur_char s = Some c \<Longrightarrow> scan_string s = Inr (s', r) \<Longrightarrow> moved s s'"
  apply (auto simp: scan_string_def Let_def split: if_splits prod.splits option.splits sum.splits
      dest!: string_chars_advanced fail_advanced const_token_advanced)
  apply (auto simp: advanced_def moved_def pos_advance cur_char_Some_iff split: if_splits)
  done


lemma isalpha_idchar: "isalpha c \<or> c = CHR ''_'' \<Longrightarrow> is_idchar c"
  by (auto simp: is_idchar_def isalnum_def)

lemma scan_id_moved:
  assumes "cur_char s = Some c" and "isalpha c \<or> c = CHR ''_''" and "scan_id s = Inr (s', tok)"
  shows "moved s s'"
proof -
  obtain s1 val where cw: "consume_while is_idchar s [] = (s1, val)"
    by (cases "consume_while is_idchar s []")
  have "moved s s1" using assms(1) isalpha_idchar [OF assms(2)] cw by (rule consume_while_moved)
  moreover have "advanced s1 s'"
    using assms(3) cw
    by (auto simp: scan_id_def Let_def advanced_def split: if_splits sum.splits
        dest!: add_sym_advanced)
  ultimately show ?thesis by (auto simp: moved_def advanced_def)
qed

lemma scan_op_single_moved:
  "cur_char s = Some ch \<Longrightarrow> [ch] \<in> set SINGLE_OPS \<Longrightarrow> scan_op_single sl sc s ch = Inr (s', r)
     \<Longrightarrow> moved s s'"
  by (auto simp: scan_op_single_def moved_def pos_advance cur_char_Some_iff split: sum.splits)

lemma peek_Some_lt: "peek s n = Some c \<Longrightarrow> pos s + n < length (src s)"
  by (simp add: peek_def Let_def split: if_splits)

lemma DOUBLE_OPS_length: "x \<in> set DOUBLE_OPS \<Longrightarrow> length x = 2"
  by (auto simp: DOUBLE_OPS_def)

lemma scan_op_moved:
  assumes "cur_char s = Some ch"
    and "[ch] \<in> set SINGLE_OPS
         \<or> ch # (case peek s 1 of None \<Rightarrow> [] | Some p1 \<Rightarrow> [p1]) \<in> set DOUBLE_OPS"
    and "scan_op s = Inr (s', r)"
  shows "moved s s'"
proof -
  have short: "moved s s'" if "scan_op_short sl sc s ch = Inr (s', r)" for sl sc
  proof (cases "peek s 1")
    case None
    with assms(2) have "[ch] \<in> set SINGLE_OPS" by (auto dest: DOUBLE_OPS_length)
    with that None assms(1) show ?thesis
      by (auto simp: scan_op_short_def dest: scan_op_single_moved)
  next
    case (Some p1)
    show ?thesis
    proof (cases "[ch, p1] \<in> set DOUBLE_OPS")
      case True
      with that Some assms(1) peek_Some_lt [OF Some] show ?thesis
        by (auto simp: scan_op_short_def moved_def pos_advance split: sum.splits)
    next
      case False
      with assms(2) Some have "[ch] \<in> set SINGLE_OPS" by auto
      with that Some False assms(1) show ?thesis
        by (auto simp: scan_op_short_def dest: scan_op_single_moved)
    qed
  qed
  from assms(1,3) show ?thesis
    by (auto simp: scan_op_def Let_def moved_def pos_advance peek_def
        split: option.splits if_splits sum.splits dest: short)
qed

lemma scan_delim_moved:
  "cur_char s = Some ch \<Longrightarrow> [ch] \<in> set DELIMITERS \<Longrightarrow> scan_delim s = Inr (s', r) \<Longrightarrow> moved s s'"
  by (auto simp: scan_delim_def moved_def advance_pos_Some split: sum.splits)

lemma skip_ws_advanced: "skip_ws s = Inr s' \<Longrightarrow> advanced s s'"
proof (induction s rule: skip_ws.induct)
  case (1 s)
  from "1.prems" show ?case
    apply (subst (asm) skip_ws.simps)
    apply (auto split: option.splits if_splits dest!: "1.IH")
        apply (auto simp: advanced_def pos_advance split: if_splits)
    done
qed

lemma block_comment_advanced: "advanced s (block_comment sl sc s)"
proof (induction sl sc s rule: block_comment.induct)
  case (1 sl sc s)
  show ?case
    apply (subst block_comment.simps)
    using "1.IH"
    apply (auto split: option.splits if_splits simp: advanced_def pos_advance)
    done
qed

lemma skip_comment_True:
  assumes "skip_comment s = (s', True)"
  shows "moved s s'"
proof -
  from assms have c: "cur_char s = Some (CHR ''/'')"
    by (auto simp: skip_comment_def split: if_splits)
  show ?thesis
  proof (cases "peek s 1 = Some (CHR ''/'')")
    case True
    with assms c obtain x where "consume_while (\<lambda>c. c \<noteq> CHR 0x0A) s [] = (s', x)"
      by (auto simp: skip_comment_def split: prod.splits)
    with c show ?thesis
      by (intro consume_while_moved [where P = "\<lambda>c. c \<noteq> CHR 0x0A" and c = "CHR ''/''"]) auto
  next
    case False
    with assms c have p: "peek s 1 = Some (CHR ''*'')"
      and s': "s' = block_comment (line s) (col s) (advance (advance s))"
      by (auto simp: skip_comment_def Let_def split: if_splits)
    from p c show ?thesis
      using block_comment_advanced [of "advance (advance s)" "line s" "col s"]
      unfolding s'
      by (auto simp: moved_def advanced_def pos_advance peek_def cur_char_def split: if_splits)
  qed
qed

lemma skip_comment_False:
  "skip_comment s = (s', False) \<Longrightarrow>
     s' = s \<and> \<not> (cur_char s = Some (CHR ''/'')
                 \<and> (peek s 1 = Some (CHR ''/'') \<or> peek s 1 = Some (CHR ''*'')))"
  by (auto simp: skip_comment_def Let_def split: if_splits prod.splits)


lemma cur_char_upd [simp]:
  "cur_char (s\<lparr>errors := e\<rparr>) = cur_char s"
  "cur_char (s\<lparr>tokens := t\<rparr>) = cur_char s"
  "cur_char (s\<lparr>sym_table := y\<rparr>) = cur_char s"
  "cur_char (s\<lparr>const_table := k\<rparr>) = cur_char s"
  by (simp_all add: cur_char_def)

lemma peek_upd [simp]:
  "peek (s\<lparr>errors := e\<rparr>) n = peek s n"
  "peek (s\<lparr>tokens := t\<rparr>) n = peek s n"
  "peek (s\<lparr>sym_table := y\<rparr>) n = peek s n"
  "peek (s\<lparr>const_table := k\<rparr>) n = peek s n"
  by (simp_all add: peek_def Let_def)

lemma advance_upd [simp]:
  "advance (s\<lparr>errors := e\<rparr>) = (advance s)\<lparr>errors := e\<rparr>"
  "advance (s\<lparr>tokens := t\<rparr>) = (advance s)\<lparr>tokens := t\<rparr>"
  "advance (s\<lparr>sym_table := y\<rparr>) = (advance s)\<lparr>sym_table := y\<rparr>"
  "advance (s\<lparr>const_table := k\<rparr>) = (advance s)\<lparr>const_table := k\<rparr>"
  by (simp_all add: advance_def split: option.splits)

section \<open>The driver loop\<close>

text \<open>\<open>tok = ...; if tok: self.tokens.append(tok)\<close>\<close>

fun emit :: "lexer \<times> token option \<Rightarrow> lexer" where
  "emit (s, None) = s"
| "emit (s, Some tok) = s\<lparr>tokens := tokens s @ [tok]\<rparr>"

text \<open>
  One run of the body of the \<open>while\<close> loop of \<open>tokenize\<close>; the result says whether the
  body ended in \<open>break\<close>. The source computes three flags from the digit-initial run
  before it calls \<open>_scan_num\<close> and then executes \<open>pass\<close>: that computation reads the text,
  changes nothing and cannot raise, and the model omits it.
\<close>

definition tokenize_body :: "lexer \<Rightarrow> py_error + (lexer \<times> loop_ctl)" where
  "tokenize_body s0 =
     (case skip_ws s0 of
        Inl e \<Rightarrow> Inl e
      | Inr s1 \<Rightarrow>
          if cur_char s1 = None then Inr (s1, Break)
          else
            (case skip_comment s1 of
               (s2, True) \<Rightarrow> Inr (s2, Continue)
             | (s, False) \<Rightarrow>
                 (case cur_char s of
                    None \<Rightarrow> Inl AttributeError
                  | Some ch \<Rightarrow>
                      (let sl = line s; sc = col s in
                       if isalpha ch \<or> ch = CHR ''_'' then
                         (case scan_id s of
                            Inl e \<Rightarrow> Inl e
                          | Inr (s3, tok) \<Rightarrow> Inr (s3\<lparr>tokens := tokens s3 @ [tok]\<rparr>, Continue))
                       else if isdigit ch then
                         (case scan_num s of
                            Inl e \<Rightarrow> Inl e
                          | Inr r \<Rightarrow> Inr (emit r, Continue))
                       else if ch = CHR ''.''
                               \<and> (case peek s 1 of None \<Rightarrow> False | Some d \<Rightarrow> isdigit d) then
                         (case scan_leading_dot_number s of
                            Inl e \<Rightarrow> Inl e
                          | Inr r \<Rightarrow> Inr (emit r, Continue))
                       else if ch = CHR 0x27 then
                         (case scan_char s of
                            Inl e \<Rightarrow> Inl e
                          | Inr r \<Rightarrow> Inr (emit r, Continue))
                       else if ch = CHR 0x22 then
                         (case scan_string s of
                            Inl e \<Rightarrow> Inl e
                          | Inr r \<Rightarrow> Inr (emit r, Continue))
                       else if [ch] \<in> set SINGLE_OPS
                               \<or> ch # (case peek s 1 of None \<Rightarrow> [] | Some p1 \<Rightarrow> [p1])
                                   \<in> set DOUBLE_OPS then
                         (if ch = CHR ''/''
                             \<and> (peek s 1 = Some (CHR ''/'') \<or> peek s 1 = Some (CHR ''*''))
                          then Inr (s, Continue)
                          else
                            (case scan_op s of
                               Inl e \<Rightarrow> Inl e
                             | Inr r \<Rightarrow> Inr (emit r, Continue)))
                       else if [ch] \<in> set DELIMITERS then
                         (case scan_delim s of
                            Inl e \<Rightarrow> Inl e
                          | Inr r \<Rightarrow> Inr (emit r, if ch = CHR ''#'' then Break else Continue))
                       else
                         Inr (advance (s\<lparr>errors := errors s
                                @ [LexError ILLEGAL_CHAR sl sc [ch] NoInfo]\<rparr>), Continue)))))"

lemma emit_advanced [simp]: "advanced s (emit r) = advanced s (fst r)"
  by (cases r; cases "snd r") (auto simp: advanced_def)

lemma emit_src [simp]: "src (emit r) = src (fst r)"
  by (cases r; cases "snd r") auto

lemma emit_pos [simp]: "pos (emit r) = pos (fst r)"
  by (cases r; cases "snd r") auto

lemma tokenize_body_moved:
  assumes "tokenize_body s = Inr (s', Continue)"
  shows "moved s s'"
proof -
  from assms obtain s1 where ws: "skip_ws s = Inr s1"
    by (auto simp: tokenize_body_def split: sum.splits)
  then have a1: "advanced s s1" by (rule skip_ws_advanced)
  from assms ws obtain c where c: "cur_char s1 = Some c"
    by (cases "cur_char s1") (auto simp: tokenize_body_def)
  obtain s2 b where sc: "skip_comment s1 = (s2, b)" by (cases "skip_comment s1")
  have "moved s1 s'"
  proof (cases b)
    case True
    with assms ws c sc have "s' = s2" by (simp add: tokenize_body_def)
    with sc True show ?thesis by (simp add: skip_comment_True)
  next
    case False
    with sc have eq: "s2 = s1"
      and nc: "\<not> (cur_char s1 = Some (CHR ''/'')
                 \<and> (peek s1 1 = Some (CHR ''/'') \<or> peek s1 1 = Some (CHR ''*'')))"
      using skip_comment_False [of s1 s2] by auto
    from assms ws c sc False eq nc show ?thesis
      apply (simp add: tokenize_body_def Let_def split: if_splits sum.splits prod.splits)
      apply (auto simp: moved_def advance_pos_Some
          dest: scan_id_moved scan_num_moved scan_leading_dot_number_moved scan_char_moved
                scan_string_moved scan_op_moved scan_delim_moved
          split: option.splits)
      done
  qed
  with a1 show ?thesis by (auto simp: moved_def advanced_def)
qed

text \<open>
  \<open>tokenize\<close>: the \<open>while self.pos < len(self.src)\<close> loop. The method returns
  \<open>self.tokens, self.errors\<close>, two fields of the state that the model returns.
\<close>

function tokenize :: "lexer \<Rightarrow> py_error + lexer" where
  "tokenize s =
     (if pos s < length (src s) then
        (case tokenize_body s of
           Inl e \<Rightarrow> Inl e
         | Inr (s', Break) \<Rightarrow> Inr s'
         | Inr (s', Continue) \<Rightarrow> tokenize s')
      else Inr s)"
  by pat_completeness auto
termination
  apply (relation "measure (\<lambda>s. length (src s) - pos s)")
   apply simp
  apply (auto dest: tokenize_body_moved intro!: moved_measure)
  done

declare tokenize.simps [simp del]

text \<open>\<open>Lexer(source).tokenize()\<close>: the pair that the method returns.\<close>

definition tokenize_source :: "string \<Rightarrow> py_error + (token list \<times> lexerror list)" where
  "tokenize_source source =
     (case tokenize (Lexer source) of Inl e \<Rightarrow> Inl e | Inr s \<Rightarrow> Inr (tokens s, errors s))"

section \<open>Recovery after a digit-initial identifier run\<close>

text \<open>
  C1, as the specification states it, does not hold: on the input \<open>1abc;\<close> the scan
  records one error, of the kind \<open>ILLEGAL_NUMBER\<close> (raised by \<open>_scan_decimal_part\<close>), and
  no \<open>ILLEGAL_ID\<close> error; \<open>_scan_illegal_id\<close> is never called.
\<close>

theorem C1_counterexample:
  "tokenize_source ''1abc;'' =
     Inr ([\<lparr>tok_code = 136, tok_value = '';'', tok_attr = Dash, tok_line = 1, tok_col = 5\<rparr>],
          [\<lparr>err_type = ILLEGAL_NUMBER, err_line = 1, err_col = 1, err_value = ''1abc'',
             err_info = LetterAfterNumber\<rparr>])
   \<and> ILLEGAL_NUMBER \<noteq> ILLEGAL_ID"
  by code_simp

text \<open>
  C1 (amended): for the input \<open>1abc;\<close>, \<open>tokenize\<close> reports an illegal-number error
  whose offending text is \<open>1abc\<close>, anchored at line 1, column 1, emits no token and makes
  no table entry for that run, and then emits the \<open>;\<close> delimiter token (code 136) at
  column 5: scanning continues past the error to the end of the text.
\<close>

theorem C1_illegal_number_then_semicolon:
  "tokenize (Lexer ''1abc;'') =
     Inr \<lparr>src = ''1abc;'', pos = 5, line = 1, col = 6,
       tokens = [\<lparr>tok_code = 136, tok_value = '';'', tok_attr = Dash, tok_line = 1,
                  tok_col = 5\<rparr>],
       errors = [LexError ILLEGAL_NUMBER 1 1 ''1abc'' LetterAfterNumber],
       sym_table = [], const_table = []\<rparr>
   \<and> map_of CODE '';'' = Some 136"
  by code_simp

section \<open>Classification of numeric literals\<close>

lemma number_42:
  "tokenize_source ''42'' =
     Inr ([\<lparr>tok_code = 51, tok_value = ''42'', tok_attr = CONSTANT 0, tok_line = 1,
             tok_col = 1\<rparr>], [])"
  by code_simp

lemma number_3_14:
  "tokenize_source ''3.14'' =
     Inr ([\<lparr>tok_code = 52, tok_value = ''3.14'', tok_attr = CONSTANT 0, tok_line = 1,
             tok_col = 1\<rparr>], [])"
  by code_simp

lemma number_dot_5:
  "tokenize_source ''.5'' =
     Inr ([\<lparr>tok_code = 52, tok_value = ''.5'', tok_attr = CONSTANT 0, tok_line = 1,
             tok_col = 1\<rparr>], [])"
  by code_simp

lemma number_0x1A:
  "tokenize_source ''0x1A'' =
     Inr ([\<lparr>tok_code = 55, tok_value = ''0x1A'', tok_attr = CONSTANT 0, tok_line = 1,
             tok_col = 1\<rparr>], [])"
  by code_simp

lemma number_017:
  "tokenize_source ''017'' =
     Inr ([\<lparr>tok_code = 56, tok_value = ''017'', tok_attr = CONSTANT 0, tok_line = 1,
             tok_col = 1\<rparr>], [])"
  by code_simp

lemma number_07_5:
  "tokenize_source ''07.5'' =
     Inr ([\<lparr>tok_code = 52, tok_value = ''07.5'', tok_attr = CONSTANT 0, tok_line = 1,
             tok_col = 1\<rparr>], [])"
  by code_simp

lemma number_089:
  "tokenize_source ''089'' = Inr ([], [LexError ILLEGAL_OCT 1 1 ''089'' OctHas8or9])"
  by code_simp

lemma number_codes:
  "map (map_of CODE) [''INT'', ''FLOAT'', ''HEX'', ''OCT''] = [Some 51, Some 52, Some 55, Some 56]"
  by code_simp

text \<open>
  C3: \<open>42\<close> yields an INT token (code 51); \<open>3.14\<close> and \<open>.5\<close> yield FLOAT (52); \<open>0x1A\<close>
  yields HEX (55); \<open>017\<close> yields OCT (56); \<open>07.5\<close> yields FLOAT by the fallback from the
  octal scanner; \<open>089\<close> yields an illegal-octal error and no token. In each case the lexeme
  is the whole input and nothing else is emitted or reported.
\<close>

theorem C3_numeric_classification:
  "tokenize_source ''42'' =
     Inr ([\<lparr>tok_code = 51, tok_value = ''42'', tok_attr = CONSTANT 0, tok_line = 1,
             tok_col = 1\<rparr>], [])
   \<and> tokenize_source ''3.14'' =
     Inr ([\<lparr>tok_code = 52, tok_value = ''3.14'', tok_attr = CONSTANT 0, tok_line = 1,
             tok_col = 1\<rparr>], [])
   \<and> tokenize_source ''.5'' =
     Inr ([\<lparr>tok_code = 52, tok_value = ''.5'', tok_attr = CONSTANT 0, tok_line = 1,
             tok_col = 1\<rparr>], [])
   \<and> tokenize_source ''0x1A'' =
     Inr ([\<lparr>tok_code = 55, tok_value = ''0x1A'', tok_attr = CONSTANT 0, tok_line = 1,
             tok_col = 1\<rparr>], [])
   \<and> tokenize_source ''017'' =
     Inr ([\<lparr>tok_code = 56, tok_value = ''017'', tok_attr = CONSTANT 0, tok_line = 1,
             tok_col = 1\<rparr>], [])
   \<and> tokenize_source ''07.5'' =
     Inr ([\<lparr>tok_code = 52, tok_value = ''07.5'', tok_attr = CONSTANT 0, tok_line = 1,
             tok_col = 1\<rparr>], [])
   \<and> tokenize_source ''089'' = Inr ([], [LexError ILLEGAL_OCT 1 1 ''089'' OctHas8or9])
   \<and> map (map_of CODE) [''INT'', ''FLOAT'', ''HEX'', ''OCT'']
       = [Some 51, Some 52, Some 55, Some 56]"
  using number_42 number_3_14 number_dot_5 number_0x1A number_017 number_07_5 number_089
    number_codes
  by (intro conjI)

section \<open>Letters after a numeric literal: three runs\<close>




section \<open>The terminator\<close>

lemma scan_delim_hash:
  "cur_char s = Some (CHR ''#'') \<Longrightarrow>
     scan_delim s = Inr (advance s, Some \<lparr>tok_code = 137, tok_value = ''#'', tok_attr = Dash,
       tok_line = line s, tok_col = col s\<rparr>)"
  by (simp add: scan_delim_def DELIMITERS_def Token_def CODE_def)

lemma terminator_example:
  "tokenize_source ''x;#y;'' =
     Inr ([\<lparr>tok_code = 50, tok_value = ''x'', tok_attr = SYM 0, tok_line = 1, tok_col = 1\<rparr>,
           \<lparr>tok_code = 136, tok_value = '';'', tok_attr = Dash, tok_line = 1, tok_col = 2\<rparr>,
           \<lparr>tok_code = 137, tok_value = ''#'', tok_attr = Dash, tok_line = 1, tok_col = 3\<rparr>],
          [])"
  by code_simp

lemma tokenize_body_hash_ws:
  assumes "skip_ws s0 = Inr s" and "cur_char s = Some (CHR ''#'')"
  shows "tokenize_body s0 = Inr ((advance s)\<lparr>tokens := tokens s @ [\<lparr>tok_code = 137, tok_value = ''#'',
      tok_attr = Dash, tok_line = line s, tok_col = col s\<rparr>]\<rparr>, Break)"
proof -
  have sc: "skip_comment s = (s, False)" using assms(2) by (simp add: skip_comment_def)
  have cls: "\<not> isalpha (CHR ''#'')" "\<not> isdigit (CHR ''#'')"
    by (simp_all add: isalpha_def isdigit_def isdecimal_def ord_def)
  have ops: "[CHR ''#''] \<notin> set SINGLE_OPS" "\<And>r. CHR ''#'' # r \<notin> set DOUBLE_OPS"
    by (auto simp: SINGLE_OPS_def DOUBLE_OPS_def)
  have tk: "tokens (advance s) = tokens s" by (simp add: advance_def split: option.splits)
  show ?thesis
    using assms
    by (simp add: tokenize_body_def sc cls ops scan_delim_hash DELIMITERS_def tk)
qed

lemma tokenize_hash_ws:
  assumes "pos s0 < length (src s0)" and "skip_ws s0 = Inr s" and "cur_char s = Some (CHR ''#'')"
  shows "tokenize s0 = Inr ((advance s)\<lparr>tokens := tokens s @ [\<lparr>tok_code = 137, tok_value = ''#'',
      tok_attr = Dash, tok_line = line s, tok_col = col s\<rparr>]\<rparr>)"
  using assms(1)
  by (subst tokenize.simps) (simp add: tokenize_body_hash_ws [OF assms(2,3)])

lemma terminator_example_space:
  "tokenize_source ''x; #y'' =
     Inr ([\<lparr>tok_code = 50, tok_value = ''x'', tok_attr = SYM 0, tok_line = 1, tok_col = 1\<rparr>,
           \<lparr>tok_code = 136, tok_value = '';'', tok_attr = Dash, tok_line = 1, tok_col = 2\<rparr>,
           \<lparr>tok_code = 137, tok_value = ''#'', tok_attr = Dash, tok_line = 1, tok_col = 4\<rparr>],
          [])"
  by code_simp

text \<open>
  C7: let a run of the loop body start at \<open>s0\<close>, before the end of the text, and let \<open>s\<close>
  be the state after its white space, with \<open>#\<close> as the current character. Then \<open>tokenize\<close>
  consumes that one character, appends its delimiter token (code 137) and returns at once,
  whatever text remains. The inputs \<open>x;#y;\<close> and \<open>x; #y\<close> produce exactly the tokens of
  \<open>x\<close>, \<open>;\<close> and \<open>#\<close>.
\<close>

theorem C7_hash_terminates:
  "(\<forall>s0 s. pos s0 < length (src s0) \<and> skip_ws s0 = Inr s \<and> cur_char s = Some (CHR ''#'') \<longrightarrow>
      tokenize s0 = Inr ((advance s)\<lparr>tokens := tokens s @ [\<lparr>tok_code = 137, tok_value = ''#'',
        tok_attr = Dash, tok_line = line s, tok_col = col s\<rparr>]\<rparr>))
   \<and> tokenize_source ''x;#y;'' =
     Inr ([\<lparr>tok_code = 50, tok_value = ''x'', tok_attr = SYM 0, tok_line = 1, tok_col = 1\<rparr>,
           \<lparr>tok_code = 136, tok_value = '';'', tok_attr = Dash, tok_line = 1, tok_col = 2\<rparr>,
           \<lparr>tok_code = 137, tok_value = ''#'', tok_attr = Dash, tok_line = 1, tok_col = 3\<rparr>],
          [])
   \<and> tokenize_source ''x; #y'' =
     Inr ([\<lparr>tok_code = 50, tok_value = ''x'', tok_attr = SYM 0, tok_line = 1, tok_col = 1\<rparr>,
           \<lparr>tok_code = 136, tok_value = '';'', tok_attr = Dash, tok_line = 1, tok_col = 2\<rparr>,
           \<lparr>tok_code = 137, tok_value = ''#'', tok_attr = Dash, tok_line = 1, tok_col = 4\<rparr>],
          [])"
  using tokenize_hash_ws terminator_example terminator_example_space by blast

text \<open>The theorem at the state that the scan of \<open>x; #y\<close> has reached after \<open>;\<close>.\<close>

theorem C7_hash_terminates_witness:
  "pos \<lparr>src = ''x; #y'', pos = 2, line = 1, col = 3, tokens = [], errors = [],
       sym_table = [''x''], const_table = []\<rparr> < length ''x; #y''
   \<and> skip_ws \<lparr>src = ''x; #y'', pos = 2, line = 1, col = 3, tokens = [], errors = [],
       sym_table = [''x''], const_table = []\<rparr>
      = Inr \<lparr>src = ''x; #y'', pos = 3, line = 1, col = 4, tokens = [], errors = [],
       sym_table = [''x''], const_table = []\<rparr>
   \<and> tokenize \<lparr>src = ''x; #y'', pos = 2, line = 1, col = 3, tokens = [], errors = [],
       sym_table = [''x''], const_table = []\<rparr> =
     Inr \<lparr>src = ''x; #y'', pos = 4, line = 1, col = 5,
        tokens = [\<lparr>tok_code = 137, tok_value = ''#'', tok_attr = Dash, tok_line = 1, tok_col = 4\<rparr>],
        errors = [], sym_table = [''x''], const_table = []\<rparr>"
proof -
  let ?start = "\<lparr>src = ''x; #y'', pos = 2, line = 1, col = 3, tokens = [], errors = [],
       sym_table = [''x''], const_table = []\<rparr>"
  let ?here = "\<lparr>src = ''x; #y'', pos = 3, line = 1, col = 4, tokens = [], errors = [],
       sym_table = [''x''], const_table = []\<rparr>"
  have h1: "pos ?start < length (src ?start)" by simp
  have h2: "skip_ws ?start = Inr ?here" by code_simp
  have h3: "cur_char ?here = Some (CHR ''#'')" by (simp add: cur_char_def)
  from C7_hash_terminates have "pos ?start < length (src ?start) \<and> skip_ws ?start = Inr ?here
      \<and> cur_char ?here = Some (CHR ''#'') \<longrightarrow>
      tokenize ?start = Inr ((advance ?here)\<lparr>tokens := tokens ?here @ [\<lparr>tok_code = 137, tok_value = ''#'',
        tok_attr = Dash, tok_line = line ?here, tok_col = col ?here\<rparr>]\<rparr>)"
    by blast
  with h1 h2 h3 have "tokenize ?start = Inr ((advance ?here)\<lparr>tokens := tokens ?here @ [\<lparr>tok_code = 137, tok_value = ''#'',
        tok_attr = Dash, tok_line = line ?here, tok_col = col ?here\<rparr>]\<rparr>)" by blast
  then have t: "tokenize ?start = Inr \<lparr>src = ''x; #y'', pos = 4, line = 1, col = 5,
        tokens = [\<lparr>tok_code = 137, tok_value = ''#'', tok_attr = Dash, tok_line = 1, tok_col = 4\<rparr>],
        errors = [], sym_table = [''x''], const_table = []\<rparr>"
    by (simp add: advance_def cur_char_def)
  have g1: "pos ?start < length ''x; #y''" by simp
  show ?thesis by (intro conjI) (rule g1 h2 t)+
qed

section \<open>Maximal munch\<close>

text \<open>
  The words of the specification: the operator at the cursor is the 3-character operator
  if the next three characters form one, else the 2-character operator if the next two
  form one, else the single-character operator. \<open>window s n\<close> is \<open>src[pos : pos + n]\<close>.
\<close>

definition window :: "lexer \<Rightarrow> nat \<Rightarrow> string" where
  "window s n = take n (drop (pos s) (src s))"

definition longest_operator :: "lexer \<Rightarrow> string option" where
  "longest_operator s =
     (if length (window s 3) = 3 \<and> window s 3 \<in> set TRIPLE_OPS then Some (window s 3)
      else if length (window s 2) = 2 \<and> window s 2 \<in> set DOUBLE_OPS then Some (window s 2)
      else if length (window s 1) = 1 \<and> window s 1 \<in> set SINGLE_OPS then Some (window s 1)
      else None)"

lemma window_1: "cur_char s = Some c \<Longrightarrow> window s 1 = [c]"
  by (auto simp: window_def cur_char_def take_Suc_conv_app_nth hd_drop_conv_nth take_Suc
      split: if_splits)

lemma window_1_None: "cur_char s = None \<Longrightarrow> window s n = []"
  by (auto simp: window_def cur_char_def split: if_splits)

lemma window_Suc:
  "peek s n = Some c \<Longrightarrow> window s (Suc n) = window s n @ [c]"
  by (auto simp: window_def peek_def Let_def take_Suc_conv_app_nth split: if_splits)

lemma window_Suc_None:
  "peek s n = None \<Longrightarrow> window s (Suc n) = window s n"
  by (auto simp: window_def peek_def Let_def split: if_splits)

lemma window_length: "length (window s n) \<le> n"
  by (simp add: window_def)

lemma window_2: "cur_char s = Some c \<Longrightarrow> peek s 1 = Some p1 \<Longrightarrow> window s 2 = [c, p1]"
  using window_Suc [of s 1 p1] window_1 [of s c] by (simp add: numeral_2_eq_2)

lemma window_3:
  "cur_char s = Some c \<Longrightarrow> peek s 1 = Some p1 \<Longrightarrow> peek s 2 = Some p2 \<Longrightarrow> window s 3 = [c, p1, p2]"
  using window_Suc [of s 2 p2] window_2 [of s c p1] by (simp add: numeral_3_eq_3)

lemma window_2_short: "peek s 1 = None \<Longrightarrow> length (window s 2) < 2"
  using window_Suc_None [of s 1] window_length [of s 1] by (simp add: numeral_2_eq_2)

lemma window_3_short: "peek s 2 = None \<Longrightarrow> length (window s 3) < 3"
  using window_Suc_None [of s 2] window_length [of s 2] by (simp add: numeral_3_eq_3)

lemma peek_1_None_2: "peek s 1 = None \<Longrightarrow> peek s 2 = None"
  by (auto simp: peek_def Let_def split: if_splits)

lemma ops_in_CODE:
  "w \<in> set TRIPLE_OPS \<union> set DOUBLE_OPS \<union> set SINGLE_OPS \<Longrightarrow> \<exists>cd. map_of CODE w = Some cd"
  by (auto simp: TRIPLE_OPS_def DOUBLE_OPS_def SINGLE_OPS_def CODE_def)


definition op_token :: "lexer \<Rightarrow> string \<Rightarrow> nat \<Rightarrow> token" where
  "op_token s w cd = \<lparr>tok_code = cd, tok_value = w, tok_attr = Dash, tok_line = line s, tok_col = col s\<rparr>"

lemma Token_op:
  "map_of CODE w = Some cd \<Longrightarrow> Token w w Dash (line s) (col s) = Inr (op_token s w cd)"
  by (simp add: Token_def op_token_def)

lemma TRIPLE_length: "w \<in> set TRIPLE_OPS \<Longrightarrow> length w = 3"
  by (auto simp: TRIPLE_OPS_def)

lemma SINGLE_length: "w \<in> set SINGLE_OPS \<Longrightarrow> length w = 1"
  by (auto simp: SINGLE_OPS_def)

lemma scan_op_single_longest:
  assumes "cur_char s = Some ch"
  shows "scan_op_single (line s) (col s) s ch =
     (if [ch] \<in> set SINGLE_OPS
      then Inr (advance s, Some (op_token s [ch] (the (map_of CODE [ch]))))
      else Inr (s, None))"
proof (cases "[ch] \<in> set SINGLE_OPS")
  case True
  then obtain cd where "map_of CODE [ch] = Some cd" using ops_in_CODE [of "[ch]"] by auto
  with True show ?thesis by (simp add: scan_op_single_def Token_op)
next
  case False
  then show ?thesis by (simp add: scan_op_single_def)
qed

lemma scan_op_short_longest:
  assumes "cur_char s = Some ch"
  shows "scan_op_short (line s) (col s) s ch =
     (if length (window s 2) = 2 \<and> window s 2 \<in> set DOUBLE_OPS
      then Inr (advance (advance s), Some (op_token s (window s 2) (the (map_of CODE (window s 2)))))
      else if [ch] \<in> set SINGLE_OPS
      then Inr (advance s, Some (op_token s [ch] (the (map_of CODE [ch]))))
      else Inr (s, None))"
proof (cases "peek s 1")
  case None
  then show ?thesis
    using window_2_short [OF None] assms
    by (simp add: scan_op_short_def scan_op_single_longest)
next
  case (Some p1)
  note w2 = window_2 [OF assms Some]
  show ?thesis
  proof (cases "[ch, p1] \<in> set DOUBLE_OPS")
    case True
    then obtain cd where "map_of CODE [ch, p1] = Some cd" using ops_in_CODE [of "[ch, p1]"] by auto
    with True Some w2 show ?thesis by (simp add: scan_op_short_def Token_op)
  next
    case False
    with Some w2 assms show ?thesis by (simp add: scan_op_short_def scan_op_single_longest)
  qed
qed

lemma scan_op_longest:
  assumes "cur_char s = Some ch"
  shows "scan_op s =
     (case longest_operator s of
        None \<Rightarrow> Inr (s, None)
      | Some w \<Rightarrow> Inr ((advance ^^ length w) s, Some (op_token s w (the (map_of CODE w)))))"
proof -
  note w1 = window_1 [OF assms]
  have short: "scan_op s = scan_op_short (line s) (col s) s ch \<and>
      \<not> (length (window s 3) = 3 \<and> window s 3 \<in> set TRIPLE_OPS) \<Longrightarrow> ?thesis"
    using assms w1
    by (auto simp: scan_op_short_longest longest_operator_def numeral_2_eq_2
        dest: SINGLE_length)
  show ?thesis
  proof (cases "peek s 1")
    case None
    with assms window_3_short [OF peek_1_None_2 [OF None]] show ?thesis
      by (intro short) (simp add: scan_op_def)
  next
    case (Some p1)
    show ?thesis
    proof (cases "peek s 2")
      case None
      with assms Some window_3_short [OF None] show ?thesis
        by (intro short) (simp add: scan_op_def)
    next
      case p2: (Some p2)
      note w3 = window_3 [OF assms Some p2]
      show ?thesis
      proof (cases "[ch, p1, p2] \<in> set TRIPLE_OPS")
        case True
        then obtain cd where "map_of CODE [ch, p1, p2] = Some cd"
          using ops_in_CODE [of "[ch, p1, p2]"] by auto
        with True assms Some p2 w3 show ?thesis
          by (simp add: scan_op_def longest_operator_def Token_op numeral_3_eq_3)
      next
        case False
        with assms Some p2 w3 show ?thesis
          by (intro short) (simp add: scan_op_def)
      qed
    qed
  qed
qed

lemma longest_operator_in_CODE:
  "longest_operator s = Some w \<Longrightarrow> \<exists>cd. map_of CODE w = Some cd"
  by (rule ops_in_CODE) (auto simp: longest_operator_def split: if_splits)

lemma longest_operator_at_end: "cur_char s = None \<Longrightarrow> longest_operator s = None"
  by (simp add: longest_operator_def window_1_None)

lemma scan_op_eq_longest:
  "scan_op s =
     (case longest_operator s of
        None \<Rightarrow> Inr (s, None)
      | Some w \<Rightarrow>
          (case map_of CODE w of
             None \<Rightarrow> Inl KeyError
           | Some cd \<Rightarrow> Inr ((advance ^^ length w) s, Some (op_token s w cd))))"
proof (cases "cur_char s")
  case None
  then show ?thesis by (simp add: longest_operator_at_end scan_op_def)
next
  case (Some ch)
  show ?thesis
  proof (cases "longest_operator s")
    case None
    with scan_op_longest [OF Some] show ?thesis by simp
  next
    case w: (Some w)
    with longest_operator_in_CODE [OF w] scan_op_longest [OF Some] show ?thesis by auto
  qed
qed

lemma maximal_munch_example:
  "tokenize_source ''a>>=b'' =
     Inr ([\<lparr>tok_code = 50, tok_value = ''a'', tok_attr = SYM 0, tok_line = 1, tok_col = 1\<rparr>,
           \<lparr>tok_code = 90, tok_value = ''>>='', tok_attr = Dash, tok_line = 1, tok_col = 2\<rparr>,
           \<lparr>tok_code = 50, tok_value = ''b'', tok_attr = SYM 1, tok_line = 1, tok_col = 5\<rparr>],
          [])"
  by code_simp

text \<open>
  C2: \<open>_scan_op\<close> obeys maximal munch. At every position it emits the operator that the
  words of the specification select (\<open>longest_operator\<close>: three characters before two
  before one), consumes exactly that operator, and gives it its code; the code table has
  an entry for every operator, so the lookup cannot fail. The input \<open>a>>=b\<close> is tokenized
  as \<open>ID(a)\<close>, \<open>>>=\<close> (code 90), \<open>ID(b)\<close>.
\<close>

theorem C2_maximal_munch:
  "(\<forall>s. scan_op s =
      (case longest_operator s of
         None \<Rightarrow> Inr (s, None)
       | Some w \<Rightarrow>
           (case map_of CODE w of
              None \<Rightarrow> Inl KeyError
            | Some cd \<Rightarrow> Inr ((advance ^^ length w) s, Some (op_token s w cd)))))
   \<and> (\<forall>s w. longest_operator s = Some w \<longrightarrow> map_of CODE w \<noteq> None)
   \<and> tokenize_source ''a>>=b'' =
     Inr ([\<lparr>tok_code = 50, tok_value = ''a'', tok_attr = SYM 0, tok_line = 1, tok_col = 1\<rparr>,
           \<lparr>tok_code = 90, tok_value = ''>>='', tok_attr = Dash, tok_line = 1, tok_col = 2\<rparr>,
           \<lparr>tok_code = 50, tok_value = ''b'', tok_attr = SYM 1, tok_line = 1, tok_col = 5\<rparr>],
          [])"
proof (intro conjI allI impI)
  fix s
  show "scan_op s =
      (case longest_operator s of
         None \<Rightarrow> Inr (s, None)
       | Some w \<Rightarrow>
           (case map_of CODE w of
              None \<Rightarrow> Inl KeyError
            | Some cd \<Rightarrow> Inr ((advance ^^ length w) s, Some (op_token s w cd))))"
    by (rule scan_op_eq_longest)
next
  fix s w
  assume "longest_operator s = Some w"
  then show "map_of CODE w \<noteq> None" using longest_operator_in_CODE by fastforce
next
  show "tokenize_source ''a>>=b'' =
     Inr ([\<lparr>tok_code = 50, tok_value = ''a'', tok_attr = SYM 0, tok_line = 1, tok_col = 1\<rparr>,
           \<lparr>tok_code = 90, tok_value = ''>>='', tok_attr = Dash, tok_line = 1, tok_col = 2\<rparr>,
           \<lparr>tok_code = 50, tok_value = ''b'', tok_attr = SYM 1, tok_line = 1, tok_col = 5\<rparr>],
          [])"
    by (rule maximal_munch_example)
qed

text \<open>
  The theorem at the state that the scan of \<open>a>>=b\<close> has reached after \<open>a\<close>: the
  operator selected is \<open>>>=\<close>, not \<open>>>\<close>, and the scanner emits it with code 90 and leaves
  the cursor on \<open>b\<close>.
\<close>

theorem C2_maximal_munch_witness:
  "longest_operator \<lparr>src = ''a>>=b'', pos = 1, line = 1, col = 2, tokens = [], errors = [],
       sym_table = [''a''], const_table = []\<rparr> = Some ''>>=''
   \<and> map_of CODE ''>>='' \<noteq> None
   \<and> scan_op \<lparr>src = ''a>>=b'', pos = 1, line = 1, col = 2, tokens = [], errors = [],
       sym_table = [''a''], const_table = []\<rparr> =
     Inr (\<lparr>src = ''a>>=b'', pos = 4, line = 1, col = 5, tokens = [], errors = [],
            sym_table = [''a''], const_table = []\<rparr>,
          Some \<lparr>tok_code = 90, tok_value = ''>>='', tok_attr = Dash, tok_line = 1, tok_col = 2\<rparr>)"
proof -
  let ?s = "\<lparr>src = ''a>>=b'', pos = 1, line = 1, col = 2, tokens = [], errors = [],
       sym_table = [''a''], const_table = []\<rparr>"
  have l: "longest_operator ?s = Some ''>>=''" by code_simp
  have c: "map_of CODE ''>>='' \<noteq> None"
    using C2_maximal_munch l by blast
  have "scan_op ?s =
      (case longest_operator ?s of
         None \<Rightarrow> Inr (?s, None)
       | Some w \<Rightarrow>
           (case map_of CODE w of
              None \<Rightarrow> Inl KeyError
            | Some cd \<Rightarrow> Inr ((advance ^^ length w) ?s, Some (op_token ?s w cd))))"
    using C2_maximal_munch by blast
  moreover have "(case map_of CODE ''>>='' of
              None \<Rightarrow> Inl KeyError
            | Some cd \<Rightarrow> Inr ((advance ^^ length ''>>='') ?s, Some (op_token ?s ''>>='' cd)))
     = Inr (\<lparr>src = ''a>>=b'', pos = 4, line = 1, col = 5, tokens = [], errors = [],
            sym_table = [''a''], const_table = []\<rparr>,
          Some \<lparr>tok_code = 90, tok_value = ''>>='', tok_attr = Dash, tok_line = 1, tok_col = 2\<rparr>)"
    by code_simp
  ultimately show ?thesis using l c by simp
qed

section \<open>Exceptions that cross the scan boundary\<close>

lemma trailing_newline_raises: "tokenize_source (''x;'' @ [CHR 0x0A]) = Inl TypeError"
  by code_simp

lemma octal_escape_8_raises:
  "tokenize_source [CHR 0x22, CHR 0x5C, CHR ''8'', CHR 0x22] = Inl ValueError"
  by code_simp

text \<open>
  C5 fails on the code. \<open>tokenize\<close> terminates on every input (it is a total function:
  see \<open>tokenize_body_moved\<close>, by which every run of the loop body that does not end the
  loop consumes a character), but it does not always return its two lists. On a text that
  ends in white space, such as \<open>x;\<close> followed by a newline, \<open>_skip_ws\<close> evaluates
  \<open>None in ' \t\r\n'\<close> at the end of the text and raises \<open>TypeError\<close>; on the string literal
  with the escape \<open>\8\<close>, \<open>int('8', 8)\<close> raises \<open>ValueError\<close>.
\<close>

theorem C5_exception_escapes:
  "tokenize_source (''x;'' @ [CHR 0x0A]) = Inl TypeError
   \<and> tokenize_source [CHR 0x22, CHR 0x5C, CHR ''8'', CHR 0x22] = Inl ValueError"
  using trailing_newline_raises octal_escape_8_raises by (intro conjI)

section \<open>Unclosed block comments\<close>

text \<open>A scan that moves the cursor and changes nothing else.\<close>

definition cursor_only :: "lexer \<Rightarrow> lexer \<Rightarrow> bool" where
  "cursor_only s s' = (src s' = src s \<and> tokens s' = tokens s \<and> errors s' = errors s
     \<and> sym_table s' = sym_table s \<and> const_table s' = const_table s)"

lemma cursor_only_refl [simp]: "cursor_only s s"
  by (simp add: cursor_only_def)

lemma cursor_only_trans: "cursor_only a b \<Longrightarrow> cursor_only b c \<Longrightarrow> cursor_only a c"
  by (simp add: cursor_only_def)

lemma cursor_only_advance [simp]: "cursor_only s (advance s)"
  by (simp add: cursor_only_def advance_def split: option.splits)

lemma consume_while_cursor_only: "consume_while P s acc = (s', v) \<Longrightarrow> cursor_only s s'"
proof (induction P s acc arbitrary: s' v rule: consume_while.induct)
  case (1 P s acc)
  from "1.prems" show ?case
    apply (subst (asm) consume_while.simps)
    apply (auto split: option.splits if_splits dest!: "1.IH")
    apply (auto simp: cursor_only_def advance_def split: option.splits if_splits)
    done
qed

lemma skip_ws_cursor_only: "skip_ws s = Inr s' \<Longrightarrow> cursor_only s s'"
proof (induction s rule: skip_ws.induct)
  case (1 s)
  from "1.prems" show ?case
    apply (subst (asm) skip_ws.simps)
    apply (auto split: option.splits if_splits dest!: "1.IH")
        apply (auto simp: cursor_only_def advance_def split: option.splits if_splits)
    done
qed

text \<open>Whether a text contains \<open>*/\<close>, and whether the text from a position on does not.\<close>

fun has_close :: "string \<Rightarrow> bool" where
  "has_close (a # b # r) = ((a = CHR ''*'' \<and> b = CHR ''/'') \<or> has_close (b # r))"
| "has_close r = False"

definition unclosed_from :: "string \<Rightarrow> nat \<Rightarrow> bool" where
  "unclosed_from xs p = (\<not> has_close (drop p xs))"

lemma unclosed_from_step:
  assumes "unclosed_from xs p" and "p < length xs"
  shows "unclosed_from xs (Suc p)
     \<and> \<not> (xs ! p = CHR ''*'' \<and> Suc p < length xs \<and> xs ! Suc p = CHR ''/'')"
proof -
  have d: "drop p xs = xs ! p # drop (Suc p) xs"
    using assms(2) by (simp add: Cons_nth_drop_Suc)
  show ?thesis
  proof (cases "Suc p < length xs")
    case True
    then have "drop (Suc p) xs = xs ! Suc p # drop (Suc (Suc p)) xs"
      by (simp add: Cons_nth_drop_Suc)
    with d assms(1) show ?thesis by (auto simp: unclosed_from_def)
  next
    case False
    then show ?thesis by (simp add: unclosed_from_def)
  qed
qed

lemma block_comment_unclosed:
  assumes "unclosed_from (src s) (pos s)" and "pos s \<le> length (src s)"
  shows "pos (block_comment sl sc s) = length (src s)
     \<and> src (block_comment sl sc s) = src s
     \<and> tokens (block_comment sl sc s) = tokens s
     \<and> errors (block_comment sl sc s) = errors s @ [LexError UNCLOSED_COMMENT sl sc ''/*'' NoInfo]
     \<and> sym_table (block_comment sl sc s) = sym_table s
     \<and> const_table (block_comment sl sc s) = const_table s"
  using assms
proof (induction sl sc s rule: block_comment.induct)
  case (1 sl sc s)
  show ?case
  proof (cases "cur_char s")
    case None
    then have eq: "block_comment sl sc s
        = s\<lparr>errors := errors s @ [LexError UNCLOSED_COMMENT sl sc ''/*'' NoInfo]\<rparr>"
      by (subst block_comment.simps) simp
    from None "1.prems"(2) have "pos s = length (src s)" by (simp add: cur_char_None_iff)
    then show ?thesis unfolding eq by simp
  next
    case (Some c)
    then have lt: "pos s < length (src s)" by (rule cur_char_Some_lt)
    note st = unclosed_from_step [OF "1.prems"(1) lt]
    with Some have no: "\<not> (c = CHR ''*'' \<and> peek s 1 = Some (CHR ''/''))"
      by (auto simp: peek_def Let_def cur_char_def split: if_splits)
    have step: "block_comment sl sc s = block_comment sl sc (advance s)"
      using Some no by (subst block_comment.simps) auto
    have "unclosed_from (src (advance s)) (pos (advance s))"
      using st lt by (simp add: pos_advance)
    moreover have "pos (advance s) \<le> length (src (advance s))"
      using lt by (simp add: pos_advance)
    ultimately have IH: "pos (block_comment sl sc (advance s)) = length (src (advance s))
     \<and> src (block_comment sl sc (advance s)) = src (advance s)
     \<and> tokens (block_comment sl sc (advance s)) = tokens (advance s)
     \<and> errors (block_comment sl sc (advance s)) = errors (advance s) @ [LexError UNCLOSED_COMMENT sl sc ''/*'' NoInfo]
     \<and> sym_table (block_comment sl sc (advance s)) = sym_table (advance s)
     \<and> const_table (block_comment sl sc (advance s)) = const_table (advance s)"
      using "1.IH" [OF Some] no by blast
    have co: "cursor_only s (advance s)" by simp
    from IH co show ?thesis unfolding step by (simp add: cursor_only_def)
  qed
qed


lemma skip_comment_block:
  "cur_char s = Some (CHR ''/'') \<Longrightarrow> peek s 1 = Some (CHR ''*'') \<Longrightarrow>
     skip_comment s = (block_comment (line s) (col s) (advance (advance s)), True)"
  by (simp add: skip_comment_def)

lemma tokenize_at_end: "length (src s) \<le> pos s \<Longrightarrow> tokenize s = Inr s"
  by (subst tokenize.simps) simp

text \<open>
  C6: let the loop body start at \<open>s0\<close> and let \<open>s\<close> be the state after its white space,
  at the \<open>/*\<close> of a block comment that no \<open>*/\<close> closes before the end of the text. Then
  \<open>tokenize\<close> returns with the cursor at the end of the text, the tokens and both tables
  as they were, and exactly one more error: the unclosed-comment error with the line and
  column of the opening \<open>/*\<close>.
\<close>

theorem C6_unclosed_comment:
  assumes "pos s0 < length (src s0)"
    and "skip_ws s0 = Inr s"
    and "cur_char s = Some (CHR ''/'')"
    and "peek s 1 = Some (CHR ''*'')"
    and "unclosed_from (src s) (pos s + 2)"
  shows "\<exists>s'. tokenize s0 = Inr s'
     \<and> pos s' = length (src s0) \<and> src s' = src s0
     \<and> tokens s' = tokens s0
     \<and> errors s' = errors s0 @ [LexError UNCLOSED_COMMENT (line s) (col s) ''/*'' NoInfo]
     \<and> sym_table s' = sym_table s0 \<and> const_table s' = const_table s0"
proof -
  let ?b = "block_comment (line s) (col s) (advance (advance s))"
  have co: "cursor_only s0 s" using assms(2) by (rule skip_ws_cursor_only)
  have lt: "pos s + 1 < length (src s)" using peek_Some_lt [OF assms(4)] .
  then have p2: "pos (advance (advance s)) = pos s + 2" by (simp add: pos_advance)
  have co2: "cursor_only s (advance (advance s))"
    using cursor_only_trans [OF cursor_only_advance cursor_only_advance] .
  have "unclosed_from (src (advance (advance s))) (pos (advance (advance s)))"
    using assms(5) p2 by simp
  moreover have "pos (advance (advance s)) \<le> length (src (advance (advance s)))"
    using lt p2 by simp
  ultimately have b: "pos ?b = length (src (advance (advance s)))
     \<and> src ?b = src (advance (advance s))
     \<and> tokens ?b = tokens (advance (advance s))
     \<and> errors ?b = errors (advance (advance s))
          @ [LexError UNCLOSED_COMMENT (line s) (col s) ''/*'' NoInfo]
     \<and> sym_table ?b = sym_table (advance (advance s))
     \<and> const_table ?b = const_table (advance (advance s))"
    by (rule block_comment_unclosed)
  have body: "tokenize_body s0 = Inr (?b, Continue)"
    using assms(2,3) by (simp add: tokenize_body_def skip_comment_block [OF assms(3,4)])
  have "tokenize ?b = Inr ?b" using b by (intro tokenize_at_end) simp
  then have "tokenize s0 = Inr ?b"
    using assms(1) body by (subst tokenize.simps) simp
  with b co co2 show ?thesis by (simp add: cursor_only_def)
qed

text \<open>
  The theorem on the text \<open>a /* b\<close>, at the state after the token \<open>a\<close>: the loop body
  skips the space, the comment swallows the rest, and the one error is at line 1, column 3.
\<close>

theorem C6_unclosed_comment_witness:
  "pos \<lparr>src = ''a /* b'', pos = 1, line = 1, col = 2, tokens = [], errors = [],
         sym_table = [''a''], const_table = []\<rparr> < length ''a /* b''
   \<and> skip_ws \<lparr>src = ''a /* b'', pos = 1, line = 1, col = 2, tokens = [], errors = [],
         sym_table = [''a''], const_table = []\<rparr>
       = Inr \<lparr>src = ''a /* b'', pos = 2, line = 1, col = 3, tokens = [], errors = [],
         sym_table = [''a''], const_table = []\<rparr>
   \<and> unclosed_from ''a /* b'' 4
   \<and> (\<exists>s'. tokenize \<lparr>src = ''a /* b'', pos = 1, line = 1, col = 2, tokens = [], errors = [],
         sym_table = [''a''], const_table = []\<rparr> = Inr s'
        \<and> pos s' = 6 \<and> tokens s' = []
        \<and> errors s' = [LexError UNCLOSED_COMMENT 1 3 ''/*'' NoInfo]
        \<and> sym_table s' = [''a''] \<and> const_table s' = [])"
proof -
  let ?start = "\<lparr>src = ''a /* b'', pos = 1, line = 1, col = 2, tokens = [],
       errors = [], sym_table = [''a''], const_table = []\<rparr>"
  let ?here = "\<lparr>src = ''a /* b'', pos = 2, line = 1, col = 3, tokens = [],
       errors = [], sym_table = [''a''], const_table = []\<rparr>"
  have h1: "pos ?start < length (src ?start)" by simp
  have h2: "skip_ws ?start = Inr ?here" by code_simp
  have h3: "cur_char ?here = Some (CHR ''/'')" by code_simp
  have h4: "peek ?here 1 = Some (CHR ''*'')" by code_simp
  have h5: "unclosed_from (src ?here) (pos ?here + 2)" by code_simp
  have ex: "\<exists>s'. tokenize ?start = Inr s' \<and> pos s' = 6 \<and> tokens s' = []
        \<and> errors s' = [LexError UNCLOSED_COMMENT 1 3 ''/*'' NoInfo]
        \<and> sym_table s' = [''a''] \<and> const_table s' = []"
  proof -
    from C6_unclosed_comment [OF h1 h2 h3 h4 h5]
    obtain s' where r: "tokenize ?start = Inr s'"
      and f: "pos s' = length (src ?start)" "tokens s' = tokens ?start"
        "errors s' = errors ?start @ [LexError UNCLOSED_COMMENT (line ?here) (col ?here) ''/*'' NoInfo]"
        "sym_table s' = sym_table ?start" "const_table s' = const_table ?start"
      by blast
    from f have "pos s' = 6" "tokens s' = []"
      "errors s' = [LexError UNCLOSED_COMMENT 1 3 ''/*'' NoInfo]"
      "sym_table s' = [''a'']" "const_table s' = []"
      by simp_all
    with r show ?thesis by blast
  qed
  have g1: "pos ?start < length ''a /* b''" by simp
  have g5: "unclosed_from ''a /* b'' 4" using h5 by simp
  show ?thesis by (intro conjI) (rule g1 h2 g5 ex)+
qed

section \<open>The tables\<close>

text \<open>Lookup-or-insert on a list: what \<open>_add_sym\<close> and \<open>_add_const\<close> do to their table.\<close>

definition insert_new :: "'a list \<Rightarrow> 'a \<Rightarrow> 'a list" where
  "insert_new xs x = (if x \<in> set xs then xs else xs @ [x])"

lemma index_None_iff: "index xs x = None \<longleftrightarrow> x \<notin> set xs"
  by (induction xs) auto

lemma index_Some:
  "index xs x = Some i \<Longrightarrow> i < length xs \<and> xs ! i = x \<and> (\<forall>j<i. xs ! j \<noteq> x)"
proof (induction xs arbitrary: i)
  case Nil
  then show ?case by simp
next
  case (Cons y ys)
  show ?case
  proof (cases "y = x")
    case True
    with Cons.prems show ?thesis by simp
  next
    case False
    with Cons.prems obtain k where k: "index ys x = Some k" "i = Suc k" by auto
    from Cons.IH [OF k(1)] False k(2) show ?thesis
      by (auto simp: nth_Cons split: nat.splits)
  qed
qed

lemma index_append: "index xs x = Some i \<Longrightarrow> index (xs @ ys) x = Some i"
  by (induction xs arbitrary: i) auto

lemma index_insert_new: "index xs x = Some i \<Longrightarrow> index (insert_new xs y) x = Some i"
  by (simp add: insert_new_def index_append)

lemma insert_new_mem [simp]: "x \<in> set (insert_new xs x)"
  by (simp add: insert_new_def)

lemma add_const_Inr:
  "add_const s v = Inr (s', i) \<longleftrightarrow>
     s' = s\<lparr>const_table := insert_new (const_table s) v\<rparr>
     \<and> index (insert_new (const_table s) v) v = Some i"
  by (auto simp: add_const_def insert_new_def Let_def split: option.splits)

lemma add_const_not_Inl: "add_const s v \<noteq> Inl e"
  using index_None_iff [of "insert_new (const_table s) v" v]
  by (auto simp: add_const_def insert_new_def Let_def split: option.splits if_splits)

lemma add_sym_Inr:
  "add_sym s v = Inr (s', i) \<longleftrightarrow>
     s' = s\<lparr>sym_table := insert_new (sym_table s) v\<rparr>
     \<and> index (insert_new (sym_table s) v) v = Some i"
  by (auto simp: add_sym_def insert_new_def Let_def split: option.splits)

lemma add_sym_not_Inl: "add_sym s v \<noteq> Inl e"
  using index_None_iff [of "insert_new (sym_table s) v" v]
  by (auto simp: add_sym_def insert_new_def Let_def split: option.splits if_splits)

lemma const_token_Inr:
  assumes "const_token key s v sl sc = Inr (s', r)"
  shows "\<exists>i cd. map_of CODE key = Some cd
      \<and> r = Some \<lparr>tok_code = cd, tok_value = v, tok_attr = CONSTANT i, tok_line = sl, tok_col = sc\<rparr>
      \<and> s' = s\<lparr>const_table := insert_new (const_table s) v\<rparr>
      \<and> index (insert_new (const_table s) v) v = Some i"
  using assms
  by (auto simp: const_token_def Token_def add_const_Inr split: sum.splits option.splits)

section \<open>Raw text\<close>

text \<open>The Python slice \<open>xs[i:j]\<close> for \<open>i \<le> j\<close>.\<close>

definition slice :: "'a list \<Rightarrow> nat \<Rightarrow> nat \<Rightarrow> 'a list" where
  "slice xs i j = take (j - i) (drop i xs)"

lemma slice_empty [simp]: "slice xs i i = []"
  by (simp add: slice_def)

lemma slice_Suc: "i \<le> j \<Longrightarrow> j < length xs \<Longrightarrow> slice xs i (Suc j) = slice xs i j @ [xs ! j]"
  by (simp add: slice_def Suc_diff_le take_Suc_conv_app_nth)

lemma slice_advance:
  "cur_char s = Some c \<Longrightarrow> p \<le> pos s \<Longrightarrow>
     slice (src s) p (pos (advance s)) = slice (src s) p (pos s) @ [c]"
  by (auto simp: cur_char_def pos_advance slice_Suc split: if_splits)


text \<open>The text \<open>v\<close> is what the scan has consumed from position \<open>p\<close> to the cursor.\<close>

definition raw_upto :: "nat \<Rightarrow> lexer \<Rightarrow> string \<Rightarrow> bool" where
  "raw_upto p s v = (p \<le> pos s \<and> v = slice (src s) p (pos s))"

lemma raw_upto_advance:
  assumes "cur_char s = Some c" and "raw_upto p s v"
  shows "raw_upto p (advance s) (v @ [c])"
proof -
  from assms(2) have p: "p \<le> pos s" and v: "v = slice (src s) p (pos s)"
    by (simp_all add: raw_upto_def)
  from slice_advance [OF assms(1) p] v p show ?thesis
    by (simp add: raw_upto_def advance_pos_Some [OF assms(1)])
qed

lemma raw_upto_advance2:
  assumes "cur_char s = Some a" and "cur_char (advance s) = Some b" and "raw_upto p s v"
  shows "raw_upto p (advance (advance s)) (v @ [a, b])"
  using raw_upto_advance [OF assms(2) raw_upto_advance [OF assms(1,3)]] by simp

lemma raw_upto_errors [simp]: "raw_upto p (s\<lparr>errors := e\<rparr>) v = raw_upto p s v"
  by (simp add: raw_upto_def)

lemma escape_digit_raw:
  "escape_digit P (s, d, v) = (s', d', v') \<Longrightarrow> raw_upto p s v \<Longrightarrow> raw_upto p s' v'"
  by (auto simp: escape_digit_def raw_upto_advance split: option.splits if_splits)

lemma escape_digit_twice_raw:
  assumes "escape_digit P (escape_digit P (s, d, v)) = (s', d', v')" and "raw_upto p s v"
  shows "raw_upto p s' v'"
proof -
  obtain s1 d1 v1 where e1: "escape_digit P (s, d, v) = (s1, d1, v1)"
    by (cases "escape_digit P (s, d, v)")
  from escape_digit_raw [OF e1 assms(2)] have "raw_upto p s1 v1" .
  with assms(1) e1 show ?thesis by (auto dest: escape_digit_raw)
qed

lemma string_char_raw:
  assumes "string_char sl sc s val cont = Inr ((s', v, k), b)" and "raw_upto p s val"
  shows "raw_upto p s' v"
  using assms
  apply (auto simp: string_char_def Let_def
      split: option.splits if_splits prod.splits sum.splits)
  apply (auto dest!: escape_digit_twice_raw [where p = p]
      simp: raw_upto_advance raw_upto_advance2)
  done


lemma string_chars_raw:
  assumes "string_chars sl sc s val cont = Inr (s', v, k)"
  shows "raw_upto p s val \<Longrightarrow> raw_upto p s' v"
  using assms
proof (induction rule: string_chars_induct)
  case (Break s val cont)
  then show ?case by (auto dest: string_char_raw)
next
  case (Continue s val cont s1 v1 k1)
  then show ?case by (auto dest: string_char_raw)
qed

section \<open>What a scan changes\<close>

text \<open>
  The errors \<open>es'\<close> are the errors \<open>es\<close> followed by errors that all carry the line \<open>sl\<close>
  and the column \<open>sc\<close>.
\<close>

definition anchored :: "nat \<Rightarrow> nat \<Rightarrow> lexerror list \<Rightarrow> lexerror list \<Rightarrow> bool" where
  "anchored sl sc es es' =
     (take (length es) es' = es
      \<and> (\<forall>e \<in> set (drop (length es) es'). err_line e = sl \<and> err_col e = sc))"

lemma anchored_refl [simp]: "anchored sl sc es es"
  by (simp add: anchored_def)

lemma anchored_append:
  "anchored sl sc es (es @ new) \<longleftrightarrow> (\<forall>e \<in> set new. err_line e = sl \<and> err_col e = sc)"
  by (simp add: anchored_def)

lemma anchored_iff:
  "anchored sl sc es es' \<longleftrightarrow>
     (\<exists>new. es' = es @ new \<and> (\<forall>e \<in> set new. err_line e = sl \<and> err_col e = sc))"
proof
  assume a: "anchored sl sc es es'"
  then have "es' = es @ drop (length es) es'"
    by (metis anchored_def append_take_drop_id)
  with a show "\<exists>new. es' = es @ new \<and> (\<forall>e \<in> set new. err_line e = sl \<and> err_col e = sc)"
    unfolding anchored_def by blast
next
  assume "\<exists>new. es' = es @ new \<and> (\<forall>e \<in> set new. err_line e = sl \<and> err_col e = sc)"
  then show "anchored sl sc es es'" by (auto simp: anchored_append)
qed

lemma anchored_trans:
  "anchored sl sc a b \<Longrightarrow> anchored sl sc b c \<Longrightarrow> anchored sl sc a c"
  unfolding anchored_iff by auto

lemma anchored_snoc:
  "anchored sl sc a b \<Longrightarrow> anchored sl sc a (b @ [LexError t sl sc v i])"
  unfolding anchored_iff by (auto simp: LexError_def)

text \<open>
  A scan from \<open>s\<close> to \<open>s'\<close> that has emitted no token: the text, the tokens and the
  tables are as they were, and the errors added carry the line \<open>sl\<close> and the column \<open>sc\<close>.
\<close>

definition errs_only :: "nat \<Rightarrow> nat \<Rightarrow> lexer \<Rightarrow> lexer \<Rightarrow> bool" where
  "errs_only sl sc s s' =
     (src s' = src s \<and> tokens s' = tokens s \<and> sym_table s' = sym_table s
      \<and> const_table s' = const_table s \<and> anchored sl sc (errors s) (errors s'))"

lemma errs_only_refl [simp]: "errs_only sl sc s s"
  by (simp add: errs_only_def)

lemma errs_only_trans:
  "errs_only sl sc a b \<Longrightarrow> errs_only sl sc b c \<Longrightarrow> errs_only sl sc a c"
  by (auto simp: errs_only_def intro: anchored_trans)

lemma cursor_only_errs_only: "cursor_only s s' \<Longrightarrow> errs_only sl sc s s'"
  by (simp add: cursor_only_def errs_only_def)

lemma errs_only_error:
  "errs_only sl sc s (s\<lparr>errors := errors s @ [LexError t sl sc v i]\<rparr>)"
  by (simp add: errs_only_def anchored_append LexError_def)

lemma escape_digit_cursor_only: "escape_digit P (s, d, v) = (s', d', v') \<Longrightarrow> cursor_only s s'"
  by (auto simp: escape_digit_def split: option.splits if_splits)

lemma escape_digit_twice_cursor_only:
  assumes "escape_digit P (escape_digit P (s, d, v)) = (s', d', v')"
  shows "cursor_only s s'"
proof -
  obtain s1 d1 v1 where e1: "escape_digit P (s, d, v) = (s1, d1, v1)"
    by (cases "escape_digit P (s, d, v)")
  with assms(1) have "cursor_only s s1" "cursor_only s1 s'"
    by (auto dest: escape_digit_cursor_only)
  then show ?thesis by (rule cursor_only_trans)
qed

lemma errs_only_cursor_only: "errs_only sl sc a s \<Longrightarrow> cursor_only s s' \<Longrightarrow> errs_only sl sc a s'"
  by (simp add: errs_only_def cursor_only_def)

lemma cursor_only_errs: "cursor_only a s \<Longrightarrow> errs_only sl sc s s' \<Longrightarrow> errs_only sl sc a s'"
  by (simp add: errs_only_def cursor_only_def)

lemma octal_digits_errs: "octal_digits sl sc s val = (s', v, b) \<Longrightarrow> errs_only sl sc s s'"
proof (induction sl sc s val arbitrary: s' v b rule: octal_digits.induct)
  case (1 sl sc s val)
  from "1.prems" show ?case
    apply (subst (asm) octal_digits.simps)
    apply (auto split: option.splits if_splits prod.splits
        dest!: "1.IH" consume_while_cursor_only)
     apply (auto simp: errs_only_def cursor_only_def anchored_append LexError_def advance_def
        split: option.splits if_splits)
    done
qed

lemma string_char_errs:
  "string_char sl sc s val cont = Inr ((s', v, k), b) \<Longrightarrow> errs_only sl sc s s'"
  apply (auto simp: string_char_def Let_def split: option.splits if_splits prod.splits sum.splits
      dest!: escape_digit_twice_cursor_only)
         apply (auto simp: errs_only_def cursor_only_def anchored_append LexError_def advance_def
      split: option.splits if_splits)
  done

lemma string_chars_errs:
  assumes "string_chars sl sc s val cont = Inr (s', v, k)"
  shows "errs_only sl sc s s'"
  using assms
proof (induction rule: string_chars_induct)
  case (Break s val cont)
  then show ?case by (rule string_char_errs)
next
  case (Continue s val cont s1 v1 k1)
  then show ?case by (blast intro: errs_only_trans string_char_errs)
qed


text \<open>
  The result of a scanner that started at line \<open>sl\<close>, column \<open>sc\<close>: the text and the
  tokens are as they were, the errors added carry \<open>sl\<close> and \<open>sc\<close>, and the tables are as
  they were unless a token is returned whose attribute refers to a table; then that table
  is the old one after lookup-or-insert of the token's lexeme, the attribute is the index
  of the lexeme in it, and the token carries \<open>sl\<close> and \<open>sc\<close>.
\<close>

definition scanned :: "nat \<Rightarrow> nat \<Rightarrow> lexer \<Rightarrow> lexer \<Rightarrow> token option \<Rightarrow> bool" where
  "scanned sl sc s s' r =
     (src s' = src s \<and> tokens s' = tokens s \<and> anchored sl sc (errors s) (errors s')
      \<and> (case r of
            None \<Rightarrow> sym_table s' = sym_table s \<and> const_table s' = const_table s
          | Some t \<Rightarrow>
              tok_line t = sl \<and> tok_col t = sc
              \<and> (case tok_attr t of
                    Dash \<Rightarrow> sym_table s' = sym_table s \<and> const_table s' = const_table s
                  | SYM i \<Rightarrow>
                      sym_table s' = insert_new (sym_table s) (tok_value t)
                      \<and> index (sym_table s') (tok_value t) = Some i
                      \<and> const_table s' = const_table s
                  | CONSTANT i \<Rightarrow>
                      const_table s' = insert_new (const_table s) (tok_value t)
                      \<and> index (const_table s') (tok_value t) = Some i
                      \<and> sym_table s' = sym_table s)))"

lemma scanned_None: "errs_only sl sc s s' \<Longrightarrow> scanned sl sc s s' None"
  by (simp add: scanned_def errs_only_def)

lemma errs_only_scanned:
  "errs_only sl sc a s \<Longrightarrow> scanned sl sc s s' r \<Longrightarrow> scanned sl sc a s' r"
  by (auto simp: scanned_def errs_only_def intro: anchored_trans
      split: option.splits attr.splits)

lemma cursor_only_scanned:
  "cursor_only a s \<Longrightarrow> scanned sl sc s s' r \<Longrightarrow> scanned sl sc a s' r"
  by (rule errs_only_scanned [OF cursor_only_errs_only])

lemma fail_scanned: "fail s t sl sc v i = Inr (s', r) \<Longrightarrow> scanned sl sc s s' r"
  by (auto simp: fail_def intro!: scanned_None errs_only_error)

lemma const_token_scanned: "const_token key s v sl sc = Inr (s', r) \<Longrightarrow> scanned sl sc s s' r"
  by (auto dest!: const_token_Inr simp: scanned_def)

lemma decimal_part_suffix_scanned:
  "decimal_part_suffix s val d e sl sc = Inr (s', r) \<Longrightarrow> scanned sl sc s s' r"
  by (auto simp: decimal_part_suffix_def split: if_splits prod.splits
      dest!: consume_while_cursor_only fail_scanned const_token_scanned
      intro: cursor_only_scanned scanned_None)

lemma decimal_part_exp_scanned:
  "decimal_part_exp s val d sl sc = Inr (s', r) \<Longrightarrow> scanned sl sc s s' r"
  by (auto simp: decimal_part_exp_def Let_def split: if_splits prod.splits option.splits
      dest!: consume_while_cursor_only fail_scanned decimal_part_suffix_scanned
      intro: cursor_only_scanned cursor_only_trans [OF cursor_only_advance]
        cursor_only_trans [OF cursor_only_advance cursor_only_trans [OF cursor_only_advance]])


lemma advance_fields [simp]:
  "tokens (advance s) = tokens s" "errors (advance s) = errors s"
  "sym_table (advance s) = sym_table s" "const_table (advance s) = const_table s"
  by (simp_all add: advance_def split: option.splits)

lemma scan_decimal_part_scanned:
  "scan_decimal_part ip sl sc s = Inr (s', r) \<Longrightarrow> scanned sl sc s s' r"
  apply (auto simp: scan_decimal_part_def Let_def split: if_splits prod.splits option.splits
      dest!: consume_while_cursor_only fail_scanned decimal_part_exp_scanned const_token_scanned)
       apply (auto simp: cursor_only_def scanned_def split: option.splits attr.splits)
  done


lemma scan_decimal_scanned:
  "scan_decimal sl sc s = Inr (s', r) \<Longrightarrow> scanned sl sc s s' r"
  apply (auto simp: scan_decimal_def split: prod.splits
      dest!: consume_while_cursor_only scan_decimal_part_scanned)
  apply (auto simp: cursor_only_def scanned_def split: option.splits attr.splits)
  done

lemma anchored_snoc_left:
  "anchored sl sc (es @ [LexError t sl sc v i]) es' \<Longrightarrow> anchored sl sc es es'"
  unfolding anchored_iff by (auto simp: LexError_def)

lemma scan_octal_scanned:
  "scan_octal sl sc s = Inr (s', r) \<Longrightarrow> scanned sl sc s s' r"
  apply (auto simp: scan_octal_def Let_def split: if_splits prod.splits option.splits
      dest!: consume_while_cursor_only octal_digits_errs fail_scanned scan_decimal_part_scanned
        const_token_scanned)
      apply (auto simp: cursor_only_def errs_only_def scanned_def intro: anchored_trans
      split: option.splits attr.splits)
  done

lemma scan_hex_scanned:
  "scan_hex sl sc s = Inr (s', r) \<Longrightarrow> scanned sl sc s s' r"
  apply (auto simp: scan_hex_def Let_def split: if_splits prod.splits option.splits
      dest!: consume_while_cursor_only fail_scanned const_token_scanned)
     apply (auto simp: cursor_only_def scanned_def split: option.splits attr.splits)
  done

lemma scan_num_scanned: "scan_num s = Inr (s', r) \<Longrightarrow> scanned (line s) (col s) s s' r"
  by (auto simp: scan_num_def Let_def split: if_splits
      dest: scan_hex_scanned scan_octal_scanned scan_decimal_scanned)

lemma scan_leading_dot_number_scanned:
  "scan_leading_dot_number s = Inr (s', r) \<Longrightarrow> scanned (line s) (col s) s s' r"
  by (auto simp: scan_leading_dot_number_def Let_def split: if_splits
      dest: scan_decimal_part_scanned intro: scanned_None)

lemma scan_char_rest_scanned:
  "scan_char_rest sl sc s d = Inr (s', r) \<Longrightarrow> scanned sl sc s s' r"
  apply (auto simp: scan_char_rest_def Let_def split: if_splits prod.splits option.splits
      dest!: consume_while_cursor_only fail_scanned const_token_scanned)
    apply (auto simp: cursor_only_def scanned_def split: option.splits attr.splits)
  done

lemma scan_char_scanned: "scan_char s = Inr (s', r) \<Longrightarrow> scanned (line s) (col s) s s' r"
  apply (auto simp: scan_char_def Let_def
      split: if_splits prod.splits option.splits sum.splits
      dest!: consume_while_cursor_only fail_scanned scan_char_rest_scanned
        escape_digit_twice_cursor_only)
  apply (auto simp: cursor_only_def scanned_def anchored_append LexError_def
      dest: anchored_snoc_left [unfolded LexError_def]
      split: option.splits attr.splits)
  done

lemma scan_string_scanned: "scan_string s = Inr (s', r) \<Longrightarrow> scanned (line s) (col s) s s' r"
  apply (auto simp: scan_string_def Let_def
      split: if_splits prod.splits option.splits sum.splits
      dest!: string_chars_errs fail_scanned const_token_scanned)
  apply (auto simp: cursor_only_def errs_only_def scanned_def intro: anchored_trans
      split: option.splits attr.splits)
  done


lemma scan_op_scanned: "scan_op s = Inr (s', r) \<Longrightarrow> scanned (line s) (col s) s s' r"
  by (auto simp: scan_op_def scan_op_short_def scan_op_single_def Let_def Token_def scanned_def
      split: if_splits option.splits sum.splits)

lemma scan_delim_scanned: "scan_delim s = Inr (s', r) \<Longrightarrow> scanned (line s) (col s) s s' r"
  by (auto simp: scan_delim_def Let_def Token_def scanned_def
      split: if_splits option.splits sum.splits)

lemma scan_id_scanned: "scan_id s = Inr (s', tok) \<Longrightarrow> scanned (line s) (col s) s s' (Some tok)"
  apply (auto simp: scan_id_def Let_def Token_def add_sym_Inr
      split: if_splits option.splits sum.splits prod.splits
      dest!: consume_while_cursor_only)
   apply (auto simp: cursor_only_def scanned_def)
  done

lemma block_comment_errs: "errs_only sl sc s (block_comment sl sc s)"
proof (induction sl sc s rule: block_comment.induct)
  case (1 sl sc s)
  show ?case
  proof (cases "cur_char s")
    case None
    then show ?thesis
      by (subst block_comment.simps) (simp add: errs_only_error)
  next
    case (Some c)
    show ?thesis
    proof (cases "c = CHR ''*'' \<and> peek s 1 = Some (CHR ''/'')")
      case True
      with Some show ?thesis
        by (subst block_comment.simps) (simp add: errs_only_def)
    next
      case False
      with Some have "block_comment sl sc s = block_comment sl sc (advance s)"
        by (subst block_comment.simps) auto
      moreover have "errs_only sl sc (advance s) (block_comment sl sc (advance s))"
        using "1.IH" [OF Some] False by blast
      ultimately show ?thesis
        by (simp add: errs_only_def)
    qed
  qed
qed

lemma skip_comment_errs: "skip_comment s = (s', b) \<Longrightarrow> errs_only (line s) (col s) s s'"
  using block_comment_errs [of "line s" "col s" "advance (advance s)"]
  by (auto simp: skip_comment_def Let_def errs_only_def cursor_only_def
      split: if_splits prod.splits dest!: consume_while_cursor_only)

text \<open>The tokens that a scanner's result adds to the list.\<close>

fun emitted :: "token option \<Rightarrow> token list" where
  "emitted None = []"
| "emitted (Some t) = [t]"

text \<open>
  One run of the loop body, from \<open>s0\<close> through the state \<open>s1\<close> after the white space to
  \<open>s'\<close>: the scanner's result \<open>r\<close> is appended to the tokens, and the rest is as
  \<open>scanned\<close> says, for the line and column of \<open>s1\<close>.
\<close>

definition body_step :: "lexer \<Rightarrow> lexer \<Rightarrow> token option \<Rightarrow> lexer \<Rightarrow> bool" where
  "body_step s0 s1 r s' =
     (skip_ws s0 = Inr s1 \<and> tokens s' = tokens s0 @ emitted r
      \<and> scanned (line s1) (col s1) s0 (s'\<lparr>tokens := tokens s0\<rparr>) r)"

lemma scanned_emit:
  "cursor_only s0 s \<Longrightarrow> scanned sl sc s s3 r \<Longrightarrow>
     tokens (emit (s3, r)) = tokens s0 @ emitted r
     \<and> scanned sl sc s0 ((emit (s3, r))\<lparr>tokens := tokens s0\<rparr>) r"
  by (cases r) (auto simp: scanned_def cursor_only_def split: attr.splits)

lemma body_step_same: "skip_ws s0 = Inr s1 \<Longrightarrow> body_step s0 s1 None s1"
  using skip_ws_cursor_only [of s0 s1]
  by (simp add: body_step_def scanned_def cursor_only_def)

lemma body_step_illegal:
  "skip_ws s0 = Inr s1 \<Longrightarrow>
     body_step s0 s1 None
       ((advance s1)\<lparr>errors := errors s1 @ [LexError ILLEGAL_CHAR (line s1) (col s1) v NoInfo]\<rparr>)"
  using skip_ws_cursor_only [of s0 s1]
  by (simp add: body_step_def scanned_def cursor_only_def anchored_append LexError_def)

lemma body_step_emit:
  assumes "skip_ws s0 = Inr s1" and "scanned (line s1) (col s1) s1 s3 r"
  shows "body_step s0 s1 r (emit (s3, r))"
  using scanned_emit [OF skip_ws_cursor_only [OF assms(1)] assms(2)] assms(1)
  by (simp add: body_step_def)

lemma body_step_token:
  assumes "skip_ws s0 = Inr s1" and "scanned (line s1) (col s1) s1 s3 (Some t)"
  shows "body_step s0 s1 (Some t) (s3\<lparr>tokens := tokens s3 @ [t]\<rparr>)"
  using body_step_emit [OF assms] by simp

lemma tokenize_body_step:
  assumes "tokenize_body s0 = Inr (s', ctl)"
  shows "\<exists>s1 r. body_step s0 s1 r s'"
proof -
  from assms obtain s1 where ws: "skip_ws s0 = Inr s1"
    by (auto simp: tokenize_body_def split: sum.splits)
  then have co: "cursor_only s0 s1" by (rule skip_ws_cursor_only)
  show ?thesis
  proof (cases "cur_char s1")
    case None
    with assms ws have "s' = s1" by (simp add: tokenize_body_def)
    with co ws have "body_step s0 s1 None s'"
      by (simp add: body_step_def scanned_def cursor_only_def)
    then show ?thesis by blast
  next
  case c: (Some c)
  obtain s2 b where sc: "skip_comment s1 = (s2, b)" by (cases "skip_comment s1")
  note eo = skip_comment_errs [OF sc]
  show ?thesis
  proof (cases b)
    case True
    with assms ws c sc have "s' = s2" by (simp add: tokenize_body_def)
    with eo co ws have "body_step s0 s1 None s'"
      by (simp add: body_step_def scanned_def errs_only_def cursor_only_def)
    then show ?thesis by blast
  next
    case False
    with sc have eq: "s2 = s1" using skip_comment_False [of s1 s2] by auto
    from assms ws c sc False eq have "\<exists>r. body_step s0 s1 r s'"
      apply (simp add: tokenize_body_def Let_def split: if_splits sum.splits prod.splits)
             apply (auto dest!: scan_id_scanned scan_num_scanned scan_leading_dot_number_scanned
          scan_char_scanned scan_string_scanned scan_op_scanned scan_delim_scanned
          intro: body_step_emit body_step_same body_step_illegal body_step_token)
      done
    then show ?thesis by blast
  qed
  qed
qed

section \<open>The tables after a scan\<close>

text \<open>The distinct elements of a list, in the order of their first occurrence.\<close>

definition first_seen :: "'a list \<Rightarrow> 'a list" where
  "first_seen xs = foldl insert_new [] xs"

lemma first_seen_Nil [simp]: "first_seen [] = []"
  by (simp add: first_seen_def)

lemma first_seen_snoc: "first_seen (xs @ [x]) = insert_new (first_seen xs) x"
  by (simp add: first_seen_def)

lemma set_insert_new [simp]: "set (insert_new xs x) = insert x (set xs)"
  by (auto simp: insert_new_def)

lemma distinct_insert_new [simp]: "distinct (insert_new xs x) = distinct xs"
  by (auto simp: insert_new_def)

lemma set_first_seen [simp]: "set (first_seen xs) = set xs"
  by (induction xs rule: rev_induct) (auto simp: first_seen_snoc)

lemma distinct_first_seen [simp]: "distinct (first_seen xs)"
  by (induction xs rule: rev_induct) (auto simp: first_seen_snoc)

lemma length_first_seen: "length (first_seen xs) = card (set xs)"
  using distinct_card [of "first_seen xs"] by simp

lemma first_seen_append_old: "set zs \<subseteq> set ys \<Longrightarrow> first_seen (ys @ zs) = first_seen ys"
proof (induction zs rule: rev_induct)
  case Nil
  then show ?case by simp
next
  case (snoc z zs)
  then show ?case
    using first_seen_snoc [of "ys @ zs" z] by (simp add: insert_new_def)
qed

lemma first_seen_prefix: "\<exists>ws. first_seen (ys @ zs) = first_seen ys @ ws"
proof (induction zs rule: rev_induct)
  case Nil
  then show ?case by simp
next
  case (snoc z zs)
  then obtain ws where "first_seen (ys @ zs) = first_seen ys @ ws" by blast
  then show ?case
    using first_seen_snoc [of "ys @ zs" z] by (auto simp: insert_new_def)
qed

lemma index_snoc_new: "x \<notin> set xs \<Longrightarrow> index (xs @ [x]) x = Some (length xs)"
  by (induction xs) auto

text \<open>
  The index of a spelling in the table is the number of distinct spellings seen before its
  first occurrence.
\<close>

lemma index_first_seen:
  assumes "x \<notin> set ys"
  shows "index (first_seen (ys @ x # zs)) x = Some (card (set ys))"
proof -
  have a: "first_seen (ys @ [x]) = first_seen ys @ [x]"
    using assms by (simp add: first_seen_snoc insert_new_def)
  have "index (first_seen ys @ [x]) x = Some (length (first_seen ys))"
    using assms by (intro index_snoc_new) simp
  then have b: "index (first_seen (ys @ [x])) x = Some (card (set ys))"
    by (simp add: a length_first_seen)
  obtain ws where "first_seen ((ys @ [x]) @ zs) = first_seen (ys @ [x]) @ ws"
    using first_seen_prefix by blast
  with b show ?thesis by (simp add: index_append)
qed

text \<open>The lexemes of the tokens that refer to the identifier table, and to the constant table.\<close>

definition sym_lexemes :: "token list \<Rightarrow> string list" where
  "sym_lexemes ts = map tok_value (filter (\<lambda>t. case tok_attr t of SYM i \<Rightarrow> True | _ \<Rightarrow> False) ts)"

definition const_lexemes :: "token list \<Rightarrow> string list" where
  "const_lexemes ts =
     map tok_value (filter (\<lambda>t. case tok_attr t of CONSTANT i \<Rightarrow> True | _ \<Rightarrow> False) ts)"

text \<open>
  The attribute of a token is the index of its lexeme in the table that it refers to.
\<close>

definition attr_ok :: "lexer \<Rightarrow> token \<Rightarrow> bool" where
  "attr_ok s t =
     (case tok_attr t of
        Dash \<Rightarrow> True
      | SYM i \<Rightarrow> index (sym_table s) (tok_value t) = Some i
      | CONSTANT i \<Rightarrow> index (const_table s) (tok_value t) = Some i)"

definition tables_ok :: "lexer \<Rightarrow> bool" where
  "tables_ok s =
     (sym_table s = first_seen (sym_lexemes (tokens s))
      \<and> const_table s = first_seen (const_lexemes (tokens s))
      \<and> list_all (attr_ok s) (tokens s))"

lemma tables_ok_Lexer: "tables_ok (Lexer source)"
  by (simp add: tables_ok_def Lexer_def sym_lexemes_def const_lexemes_def)

lemma body_step_tables_ok:
  assumes "body_step s0 s1 r s'" and "tables_ok s0"
  shows "tables_ok s'"
proof (cases r)
  case None
  with assms show ?thesis
    by (auto simp: body_step_def scanned_def tables_ok_def attr_ok_def list_all_iff
        split: attr.splits)
next
  case (Some t)
  show ?thesis
  proof (cases "tok_attr t")
    case Dash
    with Some assms show ?thesis
      by (auto simp: body_step_def scanned_def tables_ok_def attr_ok_def list_all_iff
          sym_lexemes_def const_lexemes_def split: attr.splits)
  next
    case (SYM i)
    with Some assms show ?thesis
      by (auto simp: body_step_def scanned_def tables_ok_def attr_ok_def list_all_iff
          sym_lexemes_def const_lexemes_def first_seen_snoc index_insert_new
          split: attr.splits)
  next
    case (CONSTANT i)
    with Some assms show ?thesis
      by (auto simp: body_step_def scanned_def tables_ok_def attr_ok_def list_all_iff
          sym_lexemes_def const_lexemes_def first_seen_snoc index_insert_new
          split: attr.splits)
  qed
qed

lemma tokenize_invariant:
  assumes "tokenize s = Inr s'"
    and "I s"
    and "\<And>a b ctl. I a \<Longrightarrow> tokenize_body a = Inr (b, ctl) \<Longrightarrow> I b"
  shows "I s'"
  using assms
proof (induction s rule: tokenize.induct)
  case (1 s)
  note run = "1.prems"(1) and init = "1.prems"(2) and step = "1.prems"(3)
  show ?case
  proof (cases "pos s < length (src s)")
    case False
    with run have "s' = s" by (subst (asm) tokenize.simps) simp
    with init show ?thesis by simp
  next
    case True
    show ?thesis
    proof (cases "tokenize_body s")
      case (Inl e)
      with True run show ?thesis by (subst (asm) tokenize.simps) simp
    next
      case (Inr x)
      obtain b ctl where x: "x = (b, ctl)" by (cases x)
      have Ib: "I b" using step [OF init] Inr x by simp
      show ?thesis
      proof (cases ctl)
        case Break
        with True Inr x run have "s' = b" by (subst (asm) tokenize.simps) simp
        with Ib show ?thesis by simp
      next
        case Continue
        with True Inr x run have "tokenize b = Inr s'" by (subst (asm) tokenize.simps) simp
        then show ?thesis
          using "1.IH" [OF True Inr, of b ctl] x Continue Ib step by simp
      qed
    qed
  qed
qed

lemma tokenize_tables_ok: "tokenize s = Inr s' \<Longrightarrow> tables_ok s \<Longrightarrow> tables_ok s'"
  by (erule tokenize_invariant) (auto dest!: tokenize_body_step intro: body_step_tables_ok)

section \<open>String tokens\<close>

lemma scan_string_token:
  assumes "scan_string s = Inr (s', Some tok)"
  shows "cur_char s = Some (CHR 0x22) \<longrightarrow> tok_value tok = slice (src s) (pos s) (pos s')"
    and "tok_code tok = 54"
    and "\<exists>i. tok_attr tok = CONSTANT i"
proof -
  from assms obtain s1 val k where
    sc: "string_chars (line s) (col s) (advance s) [CHR 0x22] [] = Inr (s1, val, k)"
    by (auto simp: scan_string_def Let_def split: sum.splits)
  from assms sc have q: "cur_char s1 = Some (CHR 0x22)"
    and ct: "const_token ''STRING'' (advance s1) (val @ [CHR 0x22]) (line s) (col s)
        = Inr (s', Some tok)"
    by (auto simp: scan_string_def Let_def fail_def split: if_splits)
  from const_token_Inr [OF ct] obtain i cd where
    cd: "map_of CODE ''STRING'' = Some cd"
    and tok: "tok = \<lparr>tok_code = cd, tok_value = val @ [CHR 0x22], tok_attr = CONSTANT i,
        tok_line = line s, tok_col = col s\<rparr>"
    and s': "s' = (advance s1)\<lparr>const_table :=
        insert_new (const_table (advance s1)) (val @ [CHR 0x22])\<rparr>"
    by auto
  from cd have "cd = 54" by (simp add: CODE_def)
  with tok show "tok_code tok = 54" by simp
  from tok show "\<exists>i. tok_attr tok = CONSTANT i" by simp
  show "cur_char s = Some (CHR 0x22) \<longrightarrow> tok_value tok = slice (src s) (pos s) (pos s')"
  proof
    assume c: "cur_char s = Some (CHR 0x22)"
    have "raw_upto (pos s) s []" by (simp add: raw_upto_def)
    from raw_upto_advance [OF c this]
    have "raw_upto (pos s) (advance s) [CHR 0x22]" by simp
    from string_chars_raw [OF sc this] have "raw_upto (pos s) s1 val" .
    from raw_upto_advance [OF q this]
    have "raw_upto (pos s) (advance s1) (val @ [CHR 0x22])" .
    moreover have "src (advance s1) = src s"
      using string_chars_advanced [OF sc] by (simp add: advanced_def)
    moreover have "pos s' = pos (advance s1)" by (simp add: s')
    ultimately show "tok_value tok = slice (src s) (pos s) (pos s')"
      using tok by (simp add: raw_upto_def)
  qed
qed

section \<open>The lexeme of a string literal\<close>

text \<open>The source text \<open>"a\nb"\<close>: a quote, \<open>a\<close>, a backslash, \<open>n\<close>, \<open>b\<close>, a quote.\<close>

definition string_example :: string where
  "string_example = [CHR 0x22, CHR ''a'', CHR 0x5C, CHR ''n'', CHR ''b'', CHR 0x22]"

lemma string_example_run:
  "tokenize (Lexer string_example) =
     Inr \<lparr>src = string_example, pos = 6, line = 1, col = 7,
       tokens = [\<lparr>tok_code = 54, tok_value = string_example, tok_attr = CONSTANT 0,
                  tok_line = 1, tok_col = 1\<rparr>],
       errors = [], sym_table = [], const_table = [string_example]\<rparr>"
  by code_simp

lemma string_example_decoded:
  "string_chars 1 1 (advance (Lexer string_example)) [CHR 0x22] [] =
     Inr (\<lparr>src = string_example, pos = 5, line = 1, col = 6, tokens = [], errors = [],
            sym_table = [], const_table = []\<rparr>,
          [CHR 0x22, CHR ''a'', CHR 0x5C, CHR ''n'', CHR ''b''], [97, 10, 98])"
  by code_simp

section \<open>Runs of characters\<close>

text \<open>The text from the cursor on, \<open>src[pos:]\<close>.\<close>

definition ahead :: "lexer \<Rightarrow> string" where
  "ahead s = drop (pos s) (src s)"


lemma ahead_peek: "ahead s = xs \<Longrightarrow> i < length xs \<Longrightarrow> peek s i = Some (xs ! i)"
  by (auto simp: ahead_def peek_def Let_def)

lemma ahead_cur: "ahead s = c # r \<Longrightarrow> cur_char s = Some c"
  using ahead_peek [of s "c # r" 0] by (simp add: peek_def cur_char_def Let_def)


lemma ahead_advance: "ahead s = c # r \<Longrightarrow> ahead (advance s) = r"
proof -
  assume a: "ahead s = c # r"
  then have lt: "pos s < length (src s)"
    by (cases "pos s < length (src s)") (auto simp: ahead_def)
  then have "drop (pos s) (src s) = src s ! pos s # drop (Suc (pos s)) (src s)"
    using Cons_nth_drop_Suc [of "pos s" "src s"] by simp
  with a lt show ?thesis by (simp add: ahead_def pos_advance)
qed


lemma ahead_upd [simp]:
  "ahead (s\<lparr>errors := e\<rparr>) = ahead s"
  "ahead (s\<lparr>tokens := t\<rparr>) = ahead s"
  "ahead (s\<lparr>sym_table := y\<rparr>) = ahead s"
  "ahead (s\<lparr>const_table := k\<rparr>) = ahead s"
  by (simp_all add: ahead_def)





subsection \<open>Character classes\<close>


lemma isdigit_not_space:
  "isdigit c \<Longrightarrow> c \<notin> set [CHR '' '', CHR 0x09, CHR 0x0D, CHR 0x0A]"
  by (auto simp: isdigit_def isdecimal_def ord_def)




subsection \<open>The dispatch of the driver at a digit and at a letter\<close>



subsection \<open>The scanners on a run\<close>

lemma const_token_total:
  assumes "map_of CODE key = Some cd"
  shows "\<exists>i. const_token key s v sl sc
       = Inr (s\<lparr>const_table := insert_new (const_table s) v\<rparr>,
              Some \<lparr>tok_code = cd, tok_value = v, tok_attr = CONSTANT i, tok_line = sl,
                    tok_col = sc\<rparr>)
     \<and> index (insert_new (const_table s) v) v = Some i"
proof (cases "add_const s v")
  case (Inl e)
  then show ?thesis by (simp add: add_const_not_Inl)
next
  case (Inr r)
  obtain s' i where r: "r = (s', i)" by (cases r)
  with Inr have "add_const s v = Inr (s', i)" by simp
  then have "s' = s\<lparr>const_table := insert_new (const_table s) v\<rparr>"
    and "index (insert_new (const_table s) v) v = Some i"
    by (simp_all add: add_const_Inr)
  with Inr r assms show ?thesis by (simp add: const_token_def Token_def)
qed






section \<open>Letters after a numeric literal\<close>










section \<open>Well-formed string literals\<close>

text \<open>
  A well-formed string literal, in the words of the specification. After the opening
  quote the text is read up to the first quote that no backslash escapes; a newline or the
  end of the text before it leaves the literal unclosed. A backslash is followed by a
  character of the escape table, by \<open>x\<close> and at least one hexadecimal digit, or by an octal
  digit other than \<open>0\<close> (which the table has). \<open>string_body\<close> gives the number of
  characters before the closing quote, \<open>string_literal\<close> the length of the literal with
  its two quotes.
\<close>

definition hex_digit_char :: "char \<Rightarrow> bool" where
  "hex_digit_char c = (c \<in> set ''0123456789abcdefABCDEF'')"

definition table_escape :: "char \<Rightarrow> bool" where
  "table_escape c = (c \<in> set [CHR ''n'', CHR ''t'', CHR ''r'', CHR ''0'', CHR 0x5C, CHR 0x27,
     CHR 0x22, CHR ''a'', CHR ''b'', CHR ''f'', CHR ''v''])"

fun string_body :: "string \<Rightarrow> nat option" where
  "string_body [] = None"
| "string_body (c # cs) =
     (if c = CHR 0x22 then Some 0
      else if c = CHR 0x0A then None
      else if c = CHR 0x5C then
        (case cs of
           [] \<Rightarrow> None
         | e # r \<Rightarrow>
             if e = CHR ''x'' then
               (case r of
                  [] \<Rightarrow> None
                | h # r' \<Rightarrow>
                    if hex_digit_char h then map_option (\<lambda>n. n + 3) (string_body r') else None)
             else if table_escape e \<or> e \<in> set ''1234567'' then
               map_option (\<lambda>n. n + 2) (string_body r)
             else None)
      else map_option Suc (string_body cs))"

definition string_literal :: "string \<Rightarrow> nat option" where
  "string_literal xs =
     (case xs of
        [] \<Rightarrow> None
      | c # cs \<Rightarrow> if c = CHR 0x22 then map_option (\<lambda>n. n + 2) (string_body cs) else None)"

lemma hex_digit_value:
  "\<forall>c. is_hex_digit c \<longrightarrow> (case digit_value c of None \<Rightarrow> False | Some v \<Rightarrow> v < 16)"
  by code_simp

lemma hex_digit_char_is: "\<forall>c. hex_digit_char c \<longrightarrow> is_hex_digit c"
  by code_simp

lemma hex_digit_ordinary:
  "\<forall>c. is_hex_digit c \<longrightarrow> c \<noteq> CHR 0x22 \<and> c \<noteq> CHR 0x0A \<and> c \<noteq> CHR 0x5C"
  by code_simp

lemma oct_digit_value:
  "\<forall>c. is_oct_digit c \<longrightarrow> (case digit_value c of None \<Rightarrow> False | Some v \<Rightarrow> v < 8)"
  by code_simp

lemma oct_digit_ordinary:
  "\<forall>c. is_oct_digit c \<longrightarrow> c \<noteq> CHR 0x22 \<and> c \<noteq> CHR 0x0A \<and> c \<noteq> CHR 0x5C"
  by code_simp

lemma table_escape_map: "\<forall>c. table_escape c \<longleftrightarrow> map_of ESCAPE_CHARS c \<noteq> None"
  by code_simp

lemma table_escape_class: "\<forall>c. table_escape c \<longrightarrow> c \<noteq> CHR 0x0A \<and> c \<noteq> CHR ''x''"
  by code_simp

lemma oct_escape_class:
  "\<forall>c. c \<in> set ''1234567'' \<longrightarrow> c \<noteq> CHR 0x0A \<and> c \<noteq> CHR ''x'' \<and> map_of ESCAPE_CHARS c = None
     \<and> isdigit c \<and> (case digit_value c of None \<Rightarrow> False | Some v \<Rightarrow> v < 8)"
  by code_simp

declare string_body.simps(2) [simp del]

lemma string_body_quote: "string_body (c # cs) = Some 0 \<longleftrightarrow> c = CHR 0x22"
  by (auto simp: string_body.simps(2) split: list.splits if_splits)

lemma string_body_ordinary:
  "c \<noteq> CHR 0x22 \<Longrightarrow> c \<noteq> CHR 0x0A \<Longrightarrow> c \<noteq> CHR 0x5C \<Longrightarrow>
     string_body (c # cs) = map_option Suc (string_body cs)"
  by (simp add: string_body.simps(2))

lemma string_body_newline: "string_body (CHR 0x0A # cs) = None"
  by (simp add: string_body.simps(2))

lemma string_body_escape:
  assumes "string_body (CHR 0x5C # cs) = Some n"
  shows "\<exists>e r. cs = e # r \<and> 2 \<le> n \<and> e \<noteq> CHR 0x0A
     \<and> ((e = CHR ''x'' \<and> (\<exists>h r'. r = h # r' \<and> hex_digit_char h)
            \<and> string_body r = Some (n - 2))
        \<or> (e \<noteq> CHR ''x'' \<and> (table_escape e \<or> e \<in> set ''1234567'')
            \<and> string_body r = Some (n - 2)))"
proof -
  from assms obtain e r where cs: "cs = e # r"
    by (cases cs) (auto simp: string_body.simps(2))
  show ?thesis
  proof (cases "e = CHR ''x''")
    case True
    with assms cs obtain h r' where r: "r = h # r'" and h: "hex_digit_char h"
      and k: "map_option (\<lambda>n. n + 3) (string_body r') = Some n"
      by (cases r) (auto simp: string_body.simps(2) split: if_splits)
    from k obtain k' where k': "string_body r' = Some k'" "n = k' + 3" by auto
    from h hex_digit_char_is hex_digit_ordinary
    have "h \<noteq> CHR 0x22 \<and> h \<noteq> CHR 0x0A \<and> h \<noteq> CHR 0x5C" by blast
    then have "string_body (h # r') = Some (Suc k')"
      using k' by (simp add: string_body_ordinary)
    with cs True r h k' show ?thesis by auto
  next
    case False
    with assms cs have t: "table_escape e \<or> e \<in> set ''1234567''"
      and k: "map_option (\<lambda>n. n + 2) (string_body r) = Some n"
      by (auto simp: string_body.simps(2) split: if_splits)
    from k obtain k' where k': "string_body r = Some k'" "n = k' + 2" by auto
    from t table_escape_class oct_escape_class have "e \<noteq> CHR 0x0A" by blast
    with cs False t k' show ?thesis by auto
  qed
qed

lemma cur_char_ahead: "cur_char s = Some c \<Longrightarrow> ahead s = c # ahead (advance s)"
  using Cons_nth_drop_Suc [of "pos s" "src s"]
  by (auto simp: ahead_def pos_advance cur_char_Some_iff)

lemma escape_digit_body:
  assumes b: "string_body (ahead s) = Some n"
    and ordinary: "\<And>c. P c \<Longrightarrow> c \<noteq> CHR 0x22 \<and> c \<noteq> CHR 0x0A \<and> c \<noteq> CHR 0x5C"
  shows "\<exists>s' e. (\<forall>d v. escape_digit P (s, d, v) = (s', d @ e, v @ e))
     \<and> list_all P e \<and> length e \<le> 1 \<and> length e \<le> n
     \<and> pos s' = pos s + length e \<and> string_body (ahead s') = Some (n - length e)
     \<and> cursor_only s s' \<and> ((\<exists>c. cur_char s = Some c \<and> P c) \<longrightarrow> e \<noteq> [])"
proof (cases "\<exists>c. cur_char s = Some c \<and> P c")
  case True
  then obtain c where c: "cur_char s = Some c" and p: "P c" by blast
  from cur_char_ahead [OF c] have a: "ahead s = c # ahead (advance s)" .
  from b a ordinary [OF p]
  have "map_option Suc (string_body (ahead (advance s))) = Some n"
    by (simp add: string_body_ordinary)
  then obtain k where k: "string_body (ahead (advance s)) = Some k" "n = Suc k" by auto
  have "\<forall>d v. escape_digit P (s, d, v) = (advance s, d @ [c], v @ [c])"
    using c p by (simp add: escape_digit_def)
  moreover have "pos (advance s) = pos s + length [c]" using c by (simp add: advance_pos_Some)
  ultimately show ?thesis using k p
    by (intro exI [of _ "advance s"] exI [of _ "[c]"]) simp
next
  case False
  then have "\<forall>d v. escape_digit P (s, d, v) = (s, d @ [], v @ [])"
    by (auto simp: escape_digit_def split: option.splits)
  with b False show ?thesis
    by (intro exI [of _ s] exI [of _ "[]"]) simp
qed

lemma escape_digit_twice_body:
  assumes b: "string_body (ahead s) = Some n"
    and ordinary: "\<And>c. P c \<Longrightarrow> c \<noteq> CHR 0x22 \<and> c \<noteq> CHR 0x0A \<and> c \<noteq> CHR 0x5C"
  shows "\<exists>s' e. (\<forall>d v. escape_digit P (escape_digit P (s, d, v)) = (s', d @ e, v @ e))
     \<and> list_all P e \<and> length e \<le> 2 \<and> length e \<le> n
     \<and> pos s' = pos s + length e \<and> string_body (ahead s') = Some (n - length e)
     \<and> cursor_only s s' \<and> ((\<exists>c. cur_char s = Some c \<and> P c) \<longrightarrow> e \<noteq> [])"
proof -
  from escape_digit_body [OF b ordinary]
  obtain s1 e1 where e1: "\<forall>d v. escape_digit P (s, d, v) = (s1, d @ e1, v @ e1)"
    and f1: "list_all P e1" "length e1 \<le> 1" "length e1 \<le> n" "pos s1 = pos s + length e1"
      "cursor_only s s1" "(\<exists>c. cur_char s = Some c \<and> P c) \<longrightarrow> e1 \<noteq> []"
    and b1: "string_body (ahead s1) = Some (n - length e1)"
    by blast
  from escape_digit_body [OF b1 ordinary]
  obtain s2 e2 where e2: "\<forall>d v. escape_digit P (s1, d, v) = (s2, d @ e2, v @ e2)"
    and f2: "list_all P e2" "length e2 \<le> 1" "length e2 \<le> n - length e1"
      "pos s2 = pos s1 + length e2" "cursor_only s1 s2"
    and b2: "string_body (ahead s2) = Some (n - length e1 - length e2)"
    by blast
  have "\<forall>d v. escape_digit P (escape_digit P (s, d, v)) = (s2, d @ (e1 @ e2), v @ (e1 @ e2))"
    using e1 e2 by simp
  moreover have "cursor_only s s2" using cursor_only_trans [OF f1(5) f2(5)] .
  ultimately show ?thesis using f1 f2 b2
    by (intro exI [of _ s2] exI [of _ "e1 @ e2"]) auto
qed

subsection \<open>Decoding the digits of an escape\<close>

lemma int_digits_bound:
  "list_all (\<lambda>c. case digit_value c of None \<Rightarrow> False | Some v \<Rightarrow> v < b) ds \<Longrightarrow>
     \<exists>n. int_digits b acc ds = Inr n \<and> n < (acc + 1) * b ^ length ds"
proof (induction ds arbitrary: acc)
  case Nil
  then show ?case by simp
next
  case (Cons c ds)
  from Cons.prems obtain v where v: "digit_value c = Some v" "v < b"
    and rest: "list_all (\<lambda>c. case digit_value c of None \<Rightarrow> False | Some v \<Rightarrow> v < b) ds"
    by (auto split: option.splits)
  from Cons.IH [OF rest, of "acc * b + v"]
  obtain n where n: "int_digits b (acc * b + v) ds = Inr n"
    "n < (acc * b + v + 1) * b ^ length ds" by blast
  have "acc * b + v + 1 \<le> (acc + 1) * b" using v(2) by (simp add: algebra_simps)
  then have "(acc * b + v + 1) * b ^ length ds \<le> ((acc + 1) * b) * b ^ length ds"
    by (rule mult_le_mono1)
  also have "((acc + 1) * b) * b ^ length ds = (acc + 1) * b ^ length (c # ds)"
    by (simp only: mult.assoc length_Cons power_Suc)
  finally have "n < (acc + 1) * b ^ length (c # ds)" using n(2) by (rule less_le_trans [rotated])
  moreover have "int_digits b acc (c # ds) = Inr n" using v n(1) by simp
  ultimately show ?case by blast
qed

lemma chr_int_ok:
  assumes "ds \<noteq> []"
    and "list_all (\<lambda>c. case digit_value c of None \<Rightarrow> False | Some v \<Rightarrow> v < b) ds"
    and "b ^ length ds \<le> 1114112"
  shows "\<exists>n. chr_int ds b = Inr n"
proof -
  from int_digits_bound [OF assms(2), of 0]
  obtain n where "int_digits b 0 ds = Inr n" "n < b ^ length ds" by auto
  with assms(1,3) show ?thesis by (simp add: chr_int_def py_int_def py_chr_def)
qed

lemma chr_int_hex:
  assumes "ds \<noteq> []" and "list_all is_hex_digit ds" and "length ds \<le> 2"
  shows "\<exists>n. chr_int ds 16 = Inr n"
proof -
  have "list_all (\<lambda>c. case digit_value c of None \<Rightarrow> False | Some v \<Rightarrow> v < 16) ds"
    using assms(2) hex_digit_value by (auto simp: list_all_iff)
  moreover have "(16::nat) ^ length ds \<le> 16 ^ 2" using assms(3) by (intro power_increasing) simp_all
  ultimately show ?thesis using assms(1) by (intro chr_int_ok) simp_all
qed

lemma chr_int_oct:
  assumes "list_all is_oct_digit ds" and "length ds \<le> 2" and "e \<in> set ''1234567''"
  shows "\<exists>n. chr_int (e # ds) 8 = Inr n"
proof -
  have "list_all (\<lambda>c. case digit_value c of None \<Rightarrow> False | Some v \<Rightarrow> v < 8) (e # ds)"
    using assms(1,3) oct_digit_value oct_escape_class by (auto simp: list_all_iff)
  moreover have "(8::nat) ^ length (e # ds) \<le> 8 ^ 3"
    using assms(2) by (intro power_increasing) simp_all
  ultimately show ?thesis by (intro chr_int_ok) simp_all
qed

subsection \<open>The loop of the string scanner inside a well-formed literal\<close>

lemma string_char_body:
  assumes b: "string_body (ahead s) = Some n" and n: "0 < n"
  shows "\<exists>s1 v1 k1 m. string_char sl sc s val cont = Inr ((s1, v1, k1), Continue)
     \<and> 0 < m \<and> m \<le> n \<and> pos s1 = pos s + m \<and> string_body (ahead s1) = Some (n - m)
     \<and> cursor_only s s1"
proof -
  obtain c cs where a: "ahead s = c # cs" using b by (cases "ahead s") auto
  have cc: "cur_char s = Some c" using a by (rule ahead_cur)
  have a1: "ahead (advance s) = cs" using a by (rule ahead_advance)
  have p1: "pos (advance s) = pos s + 1" using cc by (simp add: advance_pos_Some)
  have nq: "c \<noteq> CHR 0x22" using b n a string_body_quote [of c cs] by auto
  have nn: "c \<noteq> CHR 0x0A" using b a by (auto simp: string_body_newline)
  show ?thesis
  proof (cases "c = CHR 0x5C")
    case False
    from b a nq nn False have "map_option Suc (string_body cs) = Some n"
      by (simp add: string_body_ordinary)
    then obtain k where k: "string_body cs = Some k" "n = Suc k" by auto
    have "string_char sl sc s val cont
        = Inr ((advance s, val @ [c], cont @ [ord c]), Continue)"
      using cc nq nn False by (simp add: string_char_def)
    with a1 p1 k show ?thesis
      by (intro exI [of _ "advance s"] exI [of _ "val @ [c]"] exI [of _ "cont @ [ord c]"]
          exI [of _ 1]) simp
  next
    case True
    from string_body_escape [of cs n] b a True
    obtain e r where cs: "cs = e # r" and n2: "2 \<le> n" and en: "e \<noteq> CHR 0x0A"
      and kind: "(e = CHR ''x'' \<and> (\<exists>h r'. r = h # r' \<and> hex_digit_char h)
            \<and> string_body r = Some (n - 2))
        \<or> (e \<noteq> CHR ''x'' \<and> (table_escape e \<or> e \<in> set ''1234567'')
            \<and> string_body r = Some (n - 2))"
      by auto
    let ?s2 = "advance (advance s)"
    have ce: "cur_char (advance s) = Some e" using a1 cs by (auto intro: ahead_cur)
    have a2: "ahead ?s2 = r" using a1 cs by (auto intro: ahead_advance)
    have p2: "pos ?s2 = pos s + 2" using cc ce by (simp add: advance_pos_Some)
    have co2: "cursor_only s ?s2"
      using cursor_only_trans [OF cursor_only_advance cursor_only_advance] .
    from kind have b2: "string_body (ahead ?s2) = Some (n - 2)" using a2 by auto
    show ?thesis
    proof (cases "e = CHR ''x''")
      case True
      with kind a2 obtain h where h: "cur_char ?s2 = Some h" "hex_digit_char h"
        by (auto intro: ahead_cur)
      then have hh: "\<exists>c. cur_char ?s2 = Some c \<and> is_hex_digit c"
        using hex_digit_char_is by blast
      from escape_digit_twice_body [OF b2, of is_hex_digit] hex_digit_ordinary hh
      obtain s3 ds where ed: "\<forall>d v. escape_digit is_hex_digit (escape_digit is_hex_digit (?s2, d, v))
            = (s3, d @ ds, v @ ds)"
        and f: "list_all is_hex_digit ds" "length ds \<le> 2" "length ds \<le> n - 2"
          "pos s3 = pos ?s2 + length ds" "string_body (ahead s3) = Some (n - 2 - length ds)"
          "cursor_only ?s2 s3" "ds \<noteq> []"
        by blast
      from chr_int_hex [OF f(7) f(1) f(2)] obtain ch where ch: "chr_int ds 16 = Inr ch" ..
      have "string_char sl sc s val cont
          = Inr ((s3, ((val @ [c]) @ [e]) @ ds, cont @ [ch]), Continue)"
        using cc nq nn \<open>c = CHR 0x5C\<close> ce en True ed ch f(7)
        by (simp add: string_char_def Let_def)
      moreover have "cursor_only s s3" using cursor_only_trans [OF co2 f(6)] .
      ultimately show ?thesis using f p2 n2
        by (intro exI [of _ s3] exI [of _ "((val @ [c]) @ [e]) @ ds"] exI [of _ "cont @ [ch]"]
            exI [of _ "2 + length ds"]) simp
    next
      case False
      with kind have t: "table_escape e \<or> e \<in> set ''1234567''" by simp
      show ?thesis
      proof (cases "table_escape e")
        case True
        then obtain ch where ch: "map_of ESCAPE_CHARS e = Some ch"
          using table_escape_map by auto
        have "string_char sl sc s val cont
            = Inr ((?s2, (val @ [c]) @ [e], cont @ [ch]), Continue)"
          using cc nq nn \<open>c = CHR 0x5C\<close> ce en False ch
          by (simp add: string_char_def Let_def)
        with co2 p2 n2 b2 show ?thesis
          by (intro exI [of _ ?s2] exI [of _ "(val @ [c]) @ [e]"] exI [of _ "cont @ [ch]"]
              exI [of _ 2]) simp
      next
        case nt: False
        with t have o: "e \<in> set ''1234567''" by simp
        with oct_escape_class have oc: "map_of ESCAPE_CHARS e = None" "isdigit e" by blast+
        from escape_digit_twice_body [OF b2, of is_oct_digit] oct_digit_ordinary
        obtain s3 ds where ed: "\<forall>d v. escape_digit is_oct_digit (escape_digit is_oct_digit (?s2, d, v))
              = (s3, d @ ds, v @ ds)"
          and f: "list_all is_oct_digit ds" "length ds \<le> 2" "length ds \<le> n - 2"
            "pos s3 = pos ?s2 + length ds" "string_body (ahead s3) = Some (n - 2 - length ds)"
            "cursor_only ?s2 s3"
          by blast
        from chr_int_oct [OF f(1) f(2) o] obtain ch where ch: "chr_int (e # ds) 8 = Inr ch" ..
        have "string_char sl sc s val cont
            = Inr ((s3, ((val @ [c]) @ [e]) @ ds, cont @ [ch]), Continue)"
          using cc nq nn \<open>c = CHR 0x5C\<close> ce en False oc ed ch
          by (simp add: string_char_def Let_def)
        moreover have "cursor_only s s3" using cursor_only_trans [OF co2 f(6)] .
        ultimately show ?thesis using f p2 n2
          by (intro exI [of _ s3] exI [of _ "((val @ [c]) @ [e]) @ ds"] exI [of _ "cont @ [ch]"]
              exI [of _ "2 + length ds"]) simp
      qed
    qed
  qed
qed

lemma string_chars_body:
  "string_body (ahead s) = Some n \<Longrightarrow>
     \<exists>s' v k. string_chars sl sc s val cont = Inr (s', v, k)
       \<and> pos s' = pos s + n \<and> cur_char s' = Some (CHR 0x22) \<and> cursor_only s s'"
proof (induction n arbitrary: s val cont rule: less_induct)
  case (less n)
  show ?case
  proof (cases "n = 0")
    case True
    with less.prems obtain cs where a: "ahead s = CHR 0x22 # cs"
      using string_body_quote by (cases "ahead s") auto
    then have c: "cur_char s = Some (CHR 0x22)" by (rule ahead_cur)
    then have "string_char sl sc s val cont = Inr ((s, val, cont), Break)"
      by (simp add: string_char_def)
    then have "string_chars sl sc s val cont = Inr (s, val, cont)"
      by (subst string_chars.simps) simp
    with c True show ?thesis by simp
  next
    case False
    then have "0 < n" by simp
    from string_char_body [OF less.prems this, of sl sc val cont]
    obtain s1 v1 k1 m where st: "string_char sl sc s val cont = Inr ((s1, v1, k1), Continue)"
      and m: "0 < m" "m \<le> n" and p: "pos s1 = pos s + m"
      and b1: "string_body (ahead s1) = Some (n - m)" and co: "cursor_only s s1"
      by blast
    have "n - m < n" using m by simp
    from less.IH [OF this b1, of v1 k1]
    obtain s' v k where r: "string_chars sl sc s1 v1 k1 = Inr (s', v, k)"
      and f: "pos s' = pos s1 + (n - m)" "cur_char s' = Some (CHR 0x22)" "cursor_only s1 s'"
      by blast
    have "string_chars sl sc s val cont = Inr (s', v, k)"
      using st r by (subst string_chars.simps) simp
    moreover have "cursor_only s s'" using cursor_only_trans [OF co f(3)] .
    ultimately show ?thesis using f p m by simp
  qed
qed

lemma quote_class:
  "\<not> isalpha (CHR 0x22)" "\<not> isdigit (CHR 0x22)"
  "[CHR 0x22] \<notin> set SINGLE_OPS" "[CHR 0x22] \<notin> set DELIMITERS"
  by (simp_all add: isalpha_def isdigit_def isdecimal_def ord_def SINGLE_OPS_def DELIMITERS_def)

lemma tokenize_body_quote:
  assumes "skip_ws s0 = Inr s" and "cur_char s = Some (CHR 0x22)"
  shows "tokenize_body s0
     = (case scan_string s of Inl e \<Rightarrow> Inl e | Inr r \<Rightarrow> Inr (emit r, Continue))"
proof -
  have sc: "skip_comment s = (s, False)" using assms(2) by (simp add: skip_comment_def)
  show ?thesis using assms quote_class by (simp add: tokenize_body_def sc)
qed

lemma scan_string_literal:
  assumes "string_literal (ahead s) = Some n"
  shows "\<exists>s1 i. scan_string s
       = Inr (s1\<lparr>const_table := insert_new (const_table s) (take n (ahead s))\<rparr>,
              Some \<lparr>tok_code = 54, tok_value = take n (ahead s), tok_attr = CONSTANT i,
                    tok_line = line s, tok_col = col s\<rparr>)
     \<and> index (insert_new (const_table s) (take n (ahead s))) (take n (ahead s)) = Some i
     \<and> cursor_only s s1 \<and> pos s1 = pos s + n \<and> cur_char s = Some (CHR 0x22)"
proof -
  from assms obtain cs k where a: "ahead s = CHR 0x22 # cs"
    and k: "string_body cs = Some k" and n: "n = k + 2"
    by (auto simp: string_literal_def split: list.splits if_splits)
  have c: "cur_char s = Some (CHR 0x22)" using a by (rule ahead_cur)
  have a1: "ahead (advance s) = cs" using a by (rule ahead_advance)
  have p1: "pos (advance s) = pos s + 1" using c by (simp add: advance_pos_Some)
  from string_chars_body [of "advance s" k "line s" "col s" "[CHR 0x22]" "[]"] a1 k
  obtain s1 v kk where run: "string_chars (line s) (col s) (advance s) [CHR 0x22] [] = Inr (s1, v, kk)"
    and p: "pos s1 = pos (advance s) + k" and q: "cur_char s1 = Some (CHR 0x22)"
    and co: "cursor_only (advance s) s1" by auto
  have "raw_upto (pos s) s []" by (simp add: raw_upto_def)
  from raw_upto_advance [OF c this] have "raw_upto (pos s) (advance s) [CHR 0x22]" by simp
  from string_chars_raw [OF run this] have "raw_upto (pos s) s1 v" .
  from raw_upto_advance [OF q this] have r: "raw_upto (pos s) (advance s1) (v @ [CHR 0x22])" .
  have co1: "cursor_only s (advance s1)"
    using cursor_only_trans [OF cursor_only_advance cursor_only_trans [OF co cursor_only_advance]] .
  have p2: "pos (advance s1) = pos s + n" using q p p1 n by (simp add: advance_pos_Some)
  have lex: "v @ [CHR 0x22] = take n (ahead s)"
    using r co1 p2 by (simp add: raw_upto_def slice_def ahead_def cursor_only_def)
  have cd: "map_of CODE ''STRING'' = Some 54" by (simp add: CODE_def)
  from const_token_total [OF cd, of "advance s1" "take n (ahead s)" "line s" "col s"]
  obtain i where ct: "const_token ''STRING'' (advance s1) (take n (ahead s)) (line s) (col s)
       = Inr ((advance s1)\<lparr>const_table := insert_new (const_table (advance s1)) (take n (ahead s))\<rparr>,
              Some \<lparr>tok_code = 54, tok_value = take n (ahead s), tok_attr = CONSTANT i,
                    tok_line = line s, tok_col = col s\<rparr>)"
    and ix: "index (insert_new (const_table (advance s1)) (take n (ahead s))) (take n (ahead s))
        = Some i" by auto
  have tb: "const_table (advance s1) = const_table s" using co1 by (simp add: cursor_only_def)
  have "scan_string s = const_token ''STRING'' (advance s1) (v @ [CHR 0x22]) (line s) (col s)"
    using run q by (simp add: scan_string_def)
  with ct ix tb lex co1 p2 c show ?thesis by auto
qed

lemma string_literal_body:
  assumes ws: "skip_ws s0 = Inr s" and lit: "string_literal (ahead s) = Some n"
  shows "\<exists>s1 i. scan_string s
         = Inr (s1, Some \<lparr>tok_code = 54, tok_value = take n (ahead s), tok_attr = CONSTANT i,
                  tok_line = line s, tok_col = col s\<rparr>)
     \<and> tokenize_body s0
         = Inr (s1\<lparr>tokens := tokens s0 @ [\<lparr>tok_code = 54, tok_value = take n (ahead s),
                  tok_attr = CONSTANT i, tok_line = line s, tok_col = col s\<rparr>]\<rparr>, Continue)
     \<and> src s1 = src s0 \<and> pos s1 = pos s + n
     \<and> tokens s1 = tokens s0 \<and> errors s1 = errors s0 \<and> sym_table s1 = sym_table s0
     \<and> const_table s1 = insert_new (const_table s0) (take n (ahead s))
     \<and> index (const_table s1) (take n (ahead s)) = Some i"
proof -
  let ?lex = "take n (ahead s)"
  have co0: "cursor_only s0 s" using ws by (rule skip_ws_cursor_only)
  from scan_string_literal [OF lit]
  obtain s1 i where run: "scan_string s
       = Inr (s1\<lparr>const_table := insert_new (const_table s) ?lex\<rparr>,
              Some \<lparr>tok_code = 54, tok_value = ?lex, tok_attr = CONSTANT i,
                    tok_line = line s, tok_col = col s\<rparr>)"
    and ix: "index (insert_new (const_table s) ?lex) ?lex = Some i"
    and co: "cursor_only s s1" and p: "pos s1 = pos s + n"
    and c: "cur_char s = Some (CHR 0x22)" by blast
  let ?s1 = "s1\<lparr>const_table := insert_new (const_table s) ?lex\<rparr>"
  have "tokenize_body s0 = Inr (?s1\<lparr>tokens := tokens ?s1 @ [\<lparr>tok_code = 54, tok_value = ?lex,
      tok_attr = CONSTANT i, tok_line = line s, tok_col = col s\<rparr>]\<rparr>, Continue)"
    using tokenize_body_quote [OF ws c] run by simp
  moreover have "tokens ?s1 = tokens s0" "src ?s1 = src s0" "errors ?s1 = errors s0"
    "sym_table ?s1 = sym_table s0" "const_table ?s1 = insert_new (const_table s0) ?lex"
    "index (const_table ?s1) ?lex = Some i" "pos ?s1 = pos s + n"
    using co0 co ix p by (simp_all add: cursor_only_def)
  ultimately show ?thesis using run by (intro exI [of _ ?s1] exI [of _ i]) simp
qed

text \<open>
  The source text \<open>"a\"b"\<close>: a quote, \<open>a\<close>, a backslash, a quote, \<open>b\<close>, a quote; the second
  quote is escaped and does not end the literal.
\<close>

definition escaped_quote_example :: string where
  "escaped_quote_example = [CHR 0x22, CHR ''a'', CHR 0x5C, CHR 0x22, CHR ''b'', CHR 0x22]"

lemma escaped_quote_example_run:
  "tokenize (Lexer escaped_quote_example) =
     Inr \<lparr>src = escaped_quote_example, pos = 6, line = 1, col = 7,
       tokens = [\<lparr>tok_code = 54, tok_value = escaped_quote_example, tok_attr = CONSTANT 0,
                  tok_line = 1, tok_col = 1\<rparr>],
       errors = [], sym_table = [], const_table = [escaped_quote_example]\<rparr>"
  by code_simp

lemma examples_well_formed:
  "string_literal string_example = Some 6" "string_literal escaped_quote_example = Some 6"
  by code_simp+

text \<open>
  C8: let a run of the loop body start at \<open>s0\<close> and let \<open>s\<close> be the state after its white
  space, at a well-formed string literal of \<open>n\<close> characters (\<open>string_literal\<close> reads \<open>n\<close>
  off the text alone). Then \<open>_scan_string\<close> returns a STRING token (code 54) whose lexeme
  is these \<open>n\<close> characters of the text as they are written, the quotes and the escape
  sequences included, the body appends that token and records no error, the cursor is
  just after the closing quote, the constant table is the old one after lookup-or-insert
  of the lexeme, and the attribute of the token is the index of the lexeme in the table.

  Moreover, whenever \<open>_scan_string\<close>, started on a double quote, returns a token (which
  it also does for a closed literal with an illegal escape), the lexeme is the source text
  from the opening quote to the cursor (\<open>src[pos : pos']\<close>) and the table is keyed on it.

  The texts \<open>"a\nb"\<close> and \<open>"a\"b"\<close> are well-formed literals of six characters, and each
  yields one token and one table entry that hold the six characters.
\<close>

theorem C8_string_lexeme_raw:
  "(\<forall>s0 s n. skip_ws s0 = Inr s \<and> string_literal (ahead s) = Some n \<longrightarrow>
      (\<exists>s1 i. scan_string s
           = Inr (s1, Some \<lparr>tok_code = 54, tok_value = take n (ahead s), tok_attr = CONSTANT i,
                    tok_line = line s, tok_col = col s\<rparr>)
         \<and> tokenize_body s0
           = Inr (s1\<lparr>tokens := tokens s0 @ [\<lparr>tok_code = 54, tok_value = take n (ahead s),
                    tok_attr = CONSTANT i, tok_line = line s, tok_col = col s\<rparr>]\<rparr>, Continue)
         \<and> src s1 = src s0 \<and> pos s1 = pos s + n
         \<and> tokens s1 = tokens s0 \<and> errors s1 = errors s0 \<and> sym_table s1 = sym_table s0
         \<and> const_table s1 = insert_new (const_table s0) (take n (ahead s))
         \<and> index (const_table s1) (take n (ahead s)) = Some i))
   \<and> (\<forall>s s' tok. cur_char s = Some (CHR 0x22) \<and> scan_string s = Inr (s', Some tok) \<longrightarrow>
      tok_value tok = slice (src s) (pos s) (pos s')
      \<and> tok_code tok = 54
      \<and> const_table s' = insert_new (const_table s) (tok_value tok)
      \<and> (\<exists>i. tok_attr tok = CONSTANT i \<and> i < length (const_table s')
             \<and> const_table s' ! i = tok_value tok))
   \<and> string_literal string_example = Some 6
   \<and> tokenize (Lexer string_example) =
     Inr \<lparr>src = string_example, pos = 6, line = 1, col = 7,
       tokens = [\<lparr>tok_code = 54, tok_value = string_example, tok_attr = CONSTANT 0,
                  tok_line = 1, tok_col = 1\<rparr>],
       errors = [], sym_table = [], const_table = [string_example]\<rparr>
   \<and> string_literal escaped_quote_example = Some 6
   \<and> tokenize (Lexer escaped_quote_example) =
     Inr \<lparr>src = escaped_quote_example, pos = 6, line = 1, col = 7,
       tokens = [\<lparr>tok_code = 54, tok_value = escaped_quote_example, tok_attr = CONSTANT 0,
                  tok_line = 1, tok_col = 1\<rparr>],
       errors = [], sym_table = [], const_table = [escaped_quote_example]\<rparr>"
proof (intro conjI allI impI)
  fix s0 s n
  assume "skip_ws s0 = Inr s \<and> string_literal (ahead s) = Some n"
  then show "\<exists>s1 i. scan_string s
           = Inr (s1, Some \<lparr>tok_code = 54, tok_value = take n (ahead s), tok_attr = CONSTANT i,
                    tok_line = line s, tok_col = col s\<rparr>)
         \<and> tokenize_body s0
           = Inr (s1\<lparr>tokens := tokens s0 @ [\<lparr>tok_code = 54, tok_value = take n (ahead s),
                    tok_attr = CONSTANT i, tok_line = line s, tok_col = col s\<rparr>]\<rparr>, Continue)
         \<and> src s1 = src s0 \<and> pos s1 = pos s + n
         \<and> tokens s1 = tokens s0 \<and> errors s1 = errors s0 \<and> sym_table s1 = sym_table s0
         \<and> const_table s1 = insert_new (const_table s0) (take n (ahead s))
         \<and> index (const_table s1) (take n (ahead s)) = Some i"
    using string_literal_body [of s0 s n] by blast
next
  fix s s' tok
  assume a: "cur_char s = Some (CHR 0x22) \<and> scan_string s = Inr (s', Some tok)"
  then have run: "scan_string s = Inr (s', Some tok)" and c: "cur_char s = Some (CHR 0x22)"
    by simp_all
  from scan_string_token(1) [OF run] c
  show "tok_value tok = slice (src s) (pos s) (pos s')" by simp
  show "tok_code tok = 54" using scan_string_token(2) [OF run] .
  from scan_string_token(3) [OF run] obtain i where i: "tok_attr tok = CONSTANT i" by blast
  from scan_string_scanned [OF run] i
  have t: "const_table s' = insert_new (const_table s) (tok_value tok)"
    and x: "index (const_table s') (tok_value tok) = Some i"
    by (auto simp: scanned_def)
  show "const_table s' = insert_new (const_table s) (tok_value tok)" using t .
  from index_Some [OF x] i
  show "\<exists>i. tok_attr tok = CONSTANT i \<and> i < length (const_table s')
             \<and> const_table s' ! i = tok_value tok" by blast
qed (rule examples_well_formed string_example_run escaped_quote_example_run)+

text \<open>
  The theorem on the text \<open>x = "a\"b";\<close>, at the loop head after \<open>=\<close>: the white space is
  skipped, the literal is the six characters from the opening quote, and the token and the
  table hold these six characters, the backslash included. On \<open>"a\nb"\<close> the decoded
  content that the loop has built is \<open>a\<close>, a newline, \<open>b\<close> (97, 10, 98), and is not what the
  token or the table holds.
\<close>

theorem C8_string_lexeme_raw_witness:
  "skip_ws \<lparr>src = ''x = '' @ escaped_quote_example @ '';'', pos = 3, line = 1, col = 4,
       tokens = [], errors = [], sym_table = [''x''], const_table = []\<rparr>
     = Inr \<lparr>src = ''x = '' @ escaped_quote_example @ '';'', pos = 4, line = 1, col = 5,
       tokens = [], errors = [], sym_table = [''x''], const_table = []\<rparr>
   \<and> string_literal (escaped_quote_example @ '';'') = Some 6
   \<and> (\<exists>s1. tokenize_body \<lparr>src = ''x = '' @ escaped_quote_example @ '';'', pos = 3, line = 1,
          col = 4, tokens = [], errors = [], sym_table = [''x''], const_table = []\<rparr>
        = Inr (s1, Continue)
      \<and> tokens s1 = [\<lparr>tok_code = 54, tok_value = escaped_quote_example,
           tok_attr = CONSTANT 0, tok_line = 1, tok_col = 5\<rparr>]
      \<and> const_table s1 = [escaped_quote_example] \<and> pos s1 = 10 \<and> errors s1 = [])
   \<and> cur_char (Lexer string_example) = Some (CHR 0x22)
   \<and> scan_string (Lexer string_example) =
       Inr (\<lparr>src = string_example, pos = 6, line = 1, col = 7, tokens = [], errors = [],
              sym_table = [], const_table = [string_example]\<rparr>,
            Some \<lparr>tok_code = 54, tok_value = string_example, tok_attr = CONSTANT 0,
                   tok_line = 1, tok_col = 1\<rparr>)
   \<and> string_example = slice string_example 0 6
   \<and> string_chars 1 1 (advance (Lexer string_example)) [CHR 0x22] [] =
     Inr (\<lparr>src = string_example, pos = 5, line = 1, col = 6, tokens = [], errors = [],
            sym_table = [], const_table = []\<rparr>,
          [CHR 0x22, CHR ''a'', CHR 0x5C, CHR ''n'', CHR ''b''], [97, 10, 98])"
proof -
  let ?text = "''x = '' @ escaped_quote_example @ '';''"
  let ?start = "\<lparr>src = ?text, pos = 3, line = 1, col = 4,
       tokens = [], errors = [], sym_table = [''x''], const_table = []\<rparr>"
  let ?here = "\<lparr>src = ?text, pos = 4, line = 1, col = 5,
       tokens = [], errors = [], sym_table = [''x''], const_table = []\<rparr>"
  have ws: "skip_ws ?start = Inr ?here" by code_simp
  have wf: "string_literal (escaped_quote_example @ '';'') = Some 6" by code_simp
  have ah: "ahead ?here = escaped_quote_example @ '';''" by (simp add: ahead_def)
  have tk: "take 6 (escaped_quote_example @ '';'') = escaped_quote_example"
    by (simp add: escaped_quote_example_def)
  have ins: "insert_new [] escaped_quote_example = [escaped_quote_example]"
    by (simp add: insert_new_def)
  have e1: "\<exists>s1. tokenize_body ?start = Inr (s1, Continue)
      \<and> tokens s1 = [\<lparr>tok_code = 54, tok_value = escaped_quote_example,
           tok_attr = CONSTANT 0, tok_line = 1, tok_col = 5\<rparr>]
      \<and> const_table s1 = [escaped_quote_example] \<and> pos s1 = 10 \<and> errors s1 = []"
  proof -
    from C8_string_lexeme_raw [THEN conjunct1, rule_format, of ?start ?here 6] ws wf ah
    obtain s1 i where b: "tokenize_body ?start
           = Inr (s1\<lparr>tokens := tokens ?start @ [\<lparr>tok_code = 54,
                tok_value = take 6 (ahead ?here),
                tok_attr = CONSTANT i, tok_line = line ?here, tok_col = col ?here\<rparr>]\<rparr>, Continue)"
      and f: "pos s1 = pos ?here + 6" "errors s1 = errors ?start"
        "const_table s1 = insert_new (const_table ?start) (take 6 (ahead ?here))"
        "index (const_table s1) (take 6 (ahead ?here)) = Some i"
      by auto
    from f(3,4) ah tk ins have i: "i = 0" by simp
    let ?s1 = "s1\<lparr>tokens := tokens ?start @ [\<lparr>tok_code = 54,
                tok_value = take 6 (ahead ?here),
                tok_attr = CONSTANT i, tok_line = line ?here, tok_col = col ?here\<rparr>]\<rparr>"
    have "tokens ?s1 = [\<lparr>tok_code = 54, tok_value = escaped_quote_example,
           tok_attr = CONSTANT 0, tok_line = 1, tok_col = 5\<rparr>]"
      using ah tk i by simp
    moreover have "const_table ?s1 = [escaped_quote_example]" using f(3) ah tk ins by simp
    moreover have "pos ?s1 = 10" using f(1) by simp
    moreover have "errors ?s1 = []" using f(2) by simp
    ultimately show ?thesis using b by blast
  qed
  let ?final = "\<lparr>src = string_example, pos = 6, line = 1, col = 7, tokens = [], errors = [],
              sym_table = [], const_table = [string_example]\<rparr>"
  let ?tok = "\<lparr>tok_code = 54, tok_value = string_example, tok_attr = CONSTANT 0,
                   tok_line = 1, tok_col = 1\<rparr>"
  have c: "cur_char (Lexer string_example) = Some (CHR 0x22)" by code_simp
  have run: "scan_string (Lexer string_example) = Inr (?final, Some ?tok)" by code_simp
  from C8_string_lexeme_raw [THEN conjunct2, THEN conjunct1] c run
  have "tok_value ?tok = slice (src (Lexer string_example)) (pos (Lexer string_example)) (pos ?final)"
    by blast
  then have sl: "string_example = slice string_example 0 6" by (simp add: Lexer_def)
  show ?thesis by (intro conjI) (rule ws wf e1 c run sl string_example_decoded)+
qed

section \<open>Line and column of a position\<close>

text \<open>
  The line of position \<open>p\<close> of a text is one more than the number of newlines before
  \<open>p\<close>; its column is one more than the number of characters between the last newline
  before \<open>p\<close> (or the start of the text) and \<open>p\<close>.
\<close>

definition line_of :: "string \<Rightarrow> nat \<Rightarrow> nat" where
  "line_of xs p = Suc (count_list (take p xs) (CHR 0x0A))"

definition col_of :: "string \<Rightarrow> nat \<Rightarrow> nat" where
  "col_of xs p = Suc (length (takeWhile (\<lambda>c. c \<noteq> CHR 0x0A) (rev (take p xs))))"

definition cursor_ok :: "lexer \<Rightarrow> bool" where
  "cursor_ok s = (line s = line_of (src s) (pos s) \<and> col s = col_of (src s) (pos s))"

lemma cursor_ok_Lexer: "cursor_ok (Lexer source)"
  by (simp add: cursor_ok_def Lexer_def line_of_def col_of_def)

lemma cursor_ok_advance: "cursor_ok s \<Longrightarrow> cursor_ok (advance s)"
  by (auto simp: cursor_ok_def advance_def cur_char_def line_of_def col_of_def
      take_Suc_conv_app_nth split: option.splits if_splits)

lemma cursor_ok_upd [simp]:
  "cursor_ok (s\<lparr>errors := e\<rparr>) = cursor_ok s"
  "cursor_ok (s\<lparr>tokens := t\<rparr>) = cursor_ok s"
  "cursor_ok (s\<lparr>sym_table := y\<rparr>) = cursor_ok s"
  "cursor_ok (s\<lparr>const_table := k\<rparr>) = cursor_ok s"
  by (simp_all add: cursor_ok_def)

text \<open>A scan that keeps the line and the column in step with the position.\<close>

definition tracks :: "lexer \<Rightarrow> lexer \<Rightarrow> bool" where
  "tracks s s' = (cursor_ok s \<longrightarrow> cursor_ok s')"

lemma tracks_refl [simp]: "tracks s s"
  by (simp add: tracks_def)

lemma tracks_advance [simp]: "tracks s (advance s)"
  by (simp add: tracks_def cursor_ok_advance)

lemma tracks_advance2 [simp]: "tracks s (advance (advance s))"
  by (simp add: tracks_def cursor_ok_advance)

lemma tracks_advance3 [simp]: "tracks s (advance (advance (advance s)))"
  by (simp add: tracks_def cursor_ok_advance)

lemma consume_while_tracks: "consume_while P s acc = (s', v) \<Longrightarrow> tracks s s'"
proof (induction P s acc arbitrary: s' v rule: consume_while.induct)
  case (1 P s acc)
  from "1.prems" show ?case
    apply (subst (asm) consume_while.simps)
    apply (auto split: option.splits if_splits dest!: "1.IH")
      apply (auto simp: tracks_def cursor_ok_advance)
    done
qed

lemma skip_ws_tracks: "skip_ws s = Inr s' \<Longrightarrow> tracks s s'"
proof (induction s rule: skip_ws.induct)
  case (1 s)
  from "1.prems" show ?case
    apply (subst (asm) skip_ws.simps)
    apply (auto split: option.splits if_splits dest!: "1.IH")
        apply (auto simp: tracks_def cursor_ok_advance)
    done
qed

lemma block_comment_tracks: "tracks s (block_comment sl sc s)"
proof (induction sl sc s rule: block_comment.induct)
  case (1 sl sc s)
  show ?case
    apply (subst block_comment.simps)
    using "1.IH"
    apply (auto split: option.splits if_splits simp: tracks_def cursor_ok_advance)
    done
qed

lemma skip_comment_tracks: "skip_comment s = (s', b) \<Longrightarrow> tracks s s'"
  using block_comment_tracks [of "advance (advance s)" "line s" "col s"]
  by (auto simp: skip_comment_def Let_def tracks_def cursor_ok_advance
      split: if_splits prod.splits dest!: consume_while_tracks)

lemma escape_digit_tracks: "escape_digit P (s, d, v) = (s', d', v') \<Longrightarrow> tracks s s'"
  by (auto simp: escape_digit_def tracks_def cursor_ok_advance split: option.splits if_splits)

lemma escape_digit_twice_tracks:
  assumes "escape_digit P (escape_digit P (s, d, v)) = (s', d', v')"
  shows "tracks s s'"
proof -
  obtain s1 d1 v1 where e1: "escape_digit P (s, d, v) = (s1, d1, v1)"
    by (cases "escape_digit P (s, d, v)")
  with assms(1) have "tracks s s1" "tracks s1 s'"
    by (auto dest: escape_digit_tracks)
  then show ?thesis by (simp add: tracks_def)
qed

lemma const_token_tracks: "const_token key s v sl sc = Inr (s', r) \<Longrightarrow> tracks s s'"
  by (auto dest!: const_token_Inr simp: tracks_def)

lemma fail_tracks: "fail s t sl sc v i = Inr (s', r) \<Longrightarrow> tracks s s'"
  by (auto simp: fail_def tracks_def)

lemma decimal_part_suffix_tracks:
  "decimal_part_suffix s val d e sl sc = Inr (s', r) \<Longrightarrow> tracks s s'"
  apply (auto simp: decimal_part_suffix_def split: if_splits prod.splits
      dest!: consume_while_tracks fail_tracks const_token_tracks)
    apply (auto simp: tracks_def)
  done

lemma decimal_part_exp_tracks:
  "decimal_part_exp s val d sl sc = Inr (s', r) \<Longrightarrow> tracks s s'"
  apply (auto simp: decimal_part_exp_def Let_def split: if_splits prod.splits option.splits
      dest!: consume_while_tracks fail_tracks decimal_part_suffix_tracks)
         apply (auto simp: tracks_def cursor_ok_advance)
  done

lemma scan_decimal_part_tracks:
  "scan_decimal_part ip sl sc s = Inr (s', r) \<Longrightarrow> tracks s s'"
  apply (auto simp: scan_decimal_part_def Let_def split: if_splits prod.splits option.splits
      dest!: consume_while_tracks fail_tracks decimal_part_exp_tracks const_token_tracks)
       apply (auto simp: tracks_def cursor_ok_advance)
  done

lemma scan_decimal_tracks: "scan_decimal sl sc s = Inr (s', r) \<Longrightarrow> tracks s s'"
  apply (auto simp: scan_decimal_def split: prod.splits
      dest!: consume_while_tracks scan_decimal_part_tracks)
  apply (auto simp: tracks_def)
  done

lemma octal_digits_tracks: "octal_digits sl sc s val = (s', v, b) \<Longrightarrow> tracks s s'"
proof (induction sl sc s val arbitrary: s' v b rule: octal_digits.induct)
  case (1 sl sc s val)
  from "1.prems" show ?case
    apply (subst (asm) octal_digits.simps)
    apply (auto split: option.splits if_splits prod.splits
        dest!: "1.IH" consume_while_tracks)
       apply (auto simp: tracks_def cursor_ok_advance)
    done
qed

lemma scan_octal_tracks: "scan_octal sl sc s = Inr (s', r) \<Longrightarrow> tracks s s'"
  apply (auto simp: scan_octal_def Let_def split: if_splits prod.splits option.splits
      dest!: consume_while_tracks octal_digits_tracks fail_tracks scan_decimal_part_tracks
        const_token_tracks)
      apply (auto simp: tracks_def cursor_ok_advance)
  done

lemma scan_hex_tracks: "scan_hex sl sc s = Inr (s', r) \<Longrightarrow> tracks s s'"
  apply (auto simp: scan_hex_def Let_def split: if_splits prod.splits option.splits
      dest!: consume_while_tracks fail_tracks const_token_tracks)
     apply (auto simp: tracks_def cursor_ok_advance)
  done

lemma scan_num_tracks: "scan_num s = Inr (s', r) \<Longrightarrow> tracks s s'"
  by (auto simp: scan_num_def Let_def split: if_splits
      dest: scan_hex_tracks scan_octal_tracks scan_decimal_tracks)

lemma scan_leading_dot_number_tracks: "scan_leading_dot_number s = Inr (s', r) \<Longrightarrow> tracks s s'"
  by (auto simp: scan_leading_dot_number_def Let_def tracks_def split: if_splits
      dest: scan_decimal_part_tracks)

lemma scan_char_rest_tracks: "scan_char_rest sl sc s d = Inr (s', r) \<Longrightarrow> tracks s s'"
  apply (auto simp: scan_char_rest_def Let_def split: if_splits prod.splits option.splits
      dest!: consume_while_tracks fail_tracks const_token_tracks)
    apply (auto simp: tracks_def cursor_ok_advance)
  done

lemma scan_char_tracks: "scan_char s = Inr (s', r) \<Longrightarrow> tracks s s'"
  apply (auto simp: scan_char_def Let_def
      split: if_splits prod.splits option.splits sum.splits
      dest!: consume_while_tracks fail_tracks scan_char_rest_tracks escape_digit_twice_tracks)
  apply (auto simp: tracks_def cursor_ok_advance)
  done

lemma string_char_tracks:
  "string_char sl sc s val cont = Inr ((s', v, k), b) \<Longrightarrow> tracks s s'"
  apply (auto simp: string_char_def Let_def split: option.splits if_splits prod.splits sum.splits
      dest!: escape_digit_twice_tracks)
         apply (auto simp: tracks_def cursor_ok_advance)
  done

lemma string_chars_tracks:
  assumes "string_chars sl sc s val cont = Inr (s', v, k)"
  shows "tracks s s'"
  using assms
proof (induction rule: string_chars_induct)
  case (Break s val cont)
  then show ?case by (rule string_char_tracks)
next
  case (Continue s val cont s1 v1 k1)
  then show ?case by (auto dest: string_char_tracks simp: tracks_def)
qed

lemma scan_string_tracks: "scan_string s = Inr (s', r) \<Longrightarrow> tracks s s'"
  apply (auto simp: scan_string_def Let_def
      split: if_splits prod.splits option.splits sum.splits
      dest!: string_chars_tracks fail_tracks const_token_tracks)
  apply (auto simp: tracks_def cursor_ok_advance)
  done

lemma scan_op_tracks: "scan_op s = Inr (s', r) \<Longrightarrow> tracks s s'"
  by (auto simp: scan_op_def scan_op_short_def scan_op_single_def Let_def
      split: if_splits option.splits sum.splits)

lemma scan_delim_tracks: "scan_delim s = Inr (s', r) \<Longrightarrow> tracks s s'"
  by (auto simp: scan_delim_def Let_def split: if_splits option.splits sum.splits)

lemma scan_id_tracks: "scan_id s = Inr (s', tok) \<Longrightarrow> tracks s s'"
  apply (auto simp: scan_id_def Let_def add_sym_Inr
      split: if_splits option.splits sum.splits prod.splits
      dest!: consume_while_tracks)
   apply (auto simp: tracks_def)
  done

lemma emit_tracks [simp]: "cursor_ok (emit (s, r)) = cursor_ok s"
  by (cases r) simp_all

lemma tokenize_body_tracks:
  assumes "tokenize_body s0 = Inr (s', ctl)" and "cursor_ok s0"
  shows "cursor_ok s'"
proof -
  from assms obtain s1 where ws: "skip_ws s0 = Inr s1"
    by (auto simp: tokenize_body_def split: sum.splits)
  with assms(2) have ok1: "cursor_ok s1" using skip_ws_tracks by (auto simp: tracks_def)
  show ?thesis
  proof (cases "cur_char s1")
    case None
    with assms ws have "s' = s1" by (simp add: tokenize_body_def)
    with ok1 show ?thesis by simp
  next
    case c: (Some c)
    obtain s2 b where sc: "skip_comment s1 = (s2, b)" by (cases "skip_comment s1")
    with ok1 have ok2: "cursor_ok s2" using skip_comment_tracks by (auto simp: tracks_def)
    show ?thesis
    proof (cases b)
      case True
      with assms ws c sc have "s' = s2" by (simp add: tokenize_body_def)
      with ok2 show ?thesis by simp
    next
      case False
      with sc have eq: "s2 = s1" using skip_comment_False [of s1 s2] by auto
      from assms(1) ws c sc False eq ok1 show ?thesis
        apply (simp add: tokenize_body_def Let_def split: if_splits sum.splits prod.splits)
               apply (auto dest!: scan_id_tracks scan_num_tracks scan_leading_dot_number_tracks
            scan_char_tracks scan_string_tracks scan_op_tracks scan_delim_tracks
            simp: tracks_def cursor_ok_advance)
        done
    qed
  qed
qed

definition is_space :: "char \<Rightarrow> bool" where
  "is_space c = (c \<in> set [CHR '' '', CHR 0x09, CHR 0x0D, CHR 0x0A])"

lemma skip_ws_stops: "skip_ws s = Inr s' \<Longrightarrow> \<exists>c. cur_char s' = Some c \<and> \<not> is_space c"
proof (induction s rule: skip_ws.induct)
  case (1 s)
  from "1.prems" show ?case
    apply (subst (asm) skip_ws.simps)
    apply (auto split: option.splits if_splits dest!: "1.IH" simp: is_space_def)
    done
qed

lemma body_step_anchored:
  "body_step s0 s1 r s' \<Longrightarrow> anchored (line s1) (col s1) (errors s0) (errors s') \<and> src s' = src s0"
  by (simp add: body_step_def scanned_def)

text \<open>
  An error carries the line and the column of a position of the text at which a construct
  starts: a position inside the text whose character is not white space.
\<close>

definition at_construct :: "string \<Rightarrow> lexerror \<Rightarrow> bool" where
  "at_construct source e =
     list_ex (\<lambda>p. \<not> is_space (source ! p)
        \<and> err_line e = line_of source p \<and> err_col e = col_of source p) [0..<length source]"

lemma at_construct_iff:
  "at_construct source e \<longleftrightarrow>
     (\<exists>p < length source. \<not> is_space (source ! p)
        \<and> err_line e = line_of source p \<and> err_col e = col_of source p)"
  by (auto simp: at_construct_def list_ex_iff)

lemma tokenize_body_errors:
  assumes "tokenize_body s0 = Inr (s', ctl)" and "cursor_ok s0"
  shows "\<exists>s1. skip_ws s0 = Inr s1 \<and> pos s1 < length (src s0) \<and> \<not> is_space (src s0 ! pos s1)
     \<and> src s' = src s0 \<and> cursor_ok s'
     \<and> anchored (line_of (src s0) (pos s1)) (col_of (src s0) (pos s1)) (errors s0) (errors s')"
proof -
  from tokenize_body_step [OF assms(1)] obtain s1 r where b: "body_step s0 s1 r s'" by blast
  then have ws: "skip_ws s0 = Inr s1" by (simp add: body_step_def)
  from skip_ws_stops [OF ws] obtain c where c: "cur_char s1 = Some c" "\<not> is_space c" by blast
  have co: "cursor_only s0 s1" using ws by (rule skip_ws_cursor_only)
  then have src1: "src s1 = src s0" by (simp add: cursor_only_def)
  have ok1: "cursor_ok s1" using skip_ws_tracks [OF ws] assms(2) by (simp add: tracks_def)
  then have lc: "line s1 = line_of (src s0) (pos s1)" "col s1 = col_of (src s0) (pos s1)"
    by (simp_all add: cursor_ok_def src1)
  from c src1 have p: "pos s1 < length (src s0)" "\<not> is_space (src s0 ! pos s1)"
    by (auto simp: cur_char_def split: if_splits)
  from body_step_anchored [OF b] lc p ws tokenize_body_tracks [OF assms]
  show ?thesis by auto
qed

lemma anchored_at_construct:
  assumes "anchored (line_of source p) (col_of source p) es es'"
    and "p < length source" and "\<not> is_space (source ! p)"
    and "list_all (at_construct source) es"
  shows "list_all (at_construct source) es'"
proof -
  from assms(1) obtain new where new: "es' = es @ new"
    and a: "\<forall>e \<in> set new. err_line e = line_of source p \<and> err_col e = col_of source p"
    unfolding anchored_iff by blast
  from a assms(2,3) have "list_all (at_construct source) new"
    by (auto simp: list_all_iff at_construct_iff)
  with assms(4) new show ?thesis by simp
qed

lemma tokenize_errors_at_construct:
  assumes "tokenize (Lexer source) = Inr s"
  shows "list_all (at_construct source) (errors s)"
proof -
  let ?I = "\<lambda>s. cursor_ok s \<and> src s = source \<and> list_all (at_construct source) (errors s)"
  have "?I s"
  proof (rule tokenize_invariant [OF assms, where I = ?I])
    show "?I (Lexer source)" by (simp add: cursor_ok_Lexer) (simp add: Lexer_def)
  next
    fix a b ctl
    assume I: "?I a" and body: "tokenize_body a = Inr (b, ctl)"
    from I have "cursor_ok a" by simp
    from tokenize_body_errors [OF body this] obtain s1 :: lexer where
      "pos s1 < length (src a)" "\<not> is_space (src a ! pos s1)" "src b = src a" "cursor_ok b"
      "anchored (line_of (src a) (pos s1)) (col_of (src a) (pos s1)) (errors a) (errors b)"
      by auto
    with I show "?I b" by (auto intro: anchored_at_construct)
  qed
  then show ?thesis by simp
qed

section \<open>Errors are anchored where the construct starts\<close>

lemma scan_char_anchored:
  "scan_char s = Inr (s', r) \<Longrightarrow> anchored (line s) (col s) (errors s) (errors s')"
  by (auto dest!: scan_char_scanned simp: scanned_def)

lemma scan_string_anchored:
  "scan_string s = Inr (s', r) \<Longrightarrow> anchored (line s) (col s) (errors s) (errors s')"
  by (auto dest!: scan_string_scanned simp: scanned_def)

text \<open>
  The text \<open>a\<close>, newline, space, \<open>"ab\q"\<close>: the string literal starts at line 2, column 2
  (position 3), and its illegal escape \<open>\q\<close> at line 2, column 5 (position 6).
\<close>

definition escape_example :: string where
  "escape_example = [CHR ''a'', CHR 0x0A, CHR '' '', CHR 0x22, CHR ''a'', CHR ''b'', CHR 0x5C,
     CHR ''q'', CHR 0x22]"

lemma escape_example_run:
  "tokenize (Lexer escape_example) =
     Inr \<lparr>src = escape_example, pos = 9, line = 2, col = 8,
       tokens = [\<lparr>tok_code = 50, tok_value = ''a'', tok_attr = SYM 0, tok_line = 1, tok_col = 1\<rparr>,
                 \<lparr>tok_code = 54,
                    tok_value = [CHR 0x22, CHR ''a'', CHR ''b'', CHR 0x5C, CHR ''q'', CHR 0x22],
                    tok_attr = CONSTANT 0, tok_line = 2, tok_col = 2\<rparr>],
       errors = [LexError ILLEGAL_ESCAPE 2 2 [CHR 0x5C, CHR ''q''] NoInfo],
       sym_table = [''a''],
       const_table = [[CHR 0x22, CHR ''a'', CHR ''b'', CHR 0x5C, CHR ''q'', CHR 0x22]]\<rparr>"
  by code_simp

text \<open>
  C9: the line and the column of the state are those of its position in the text at the
  start of a scan and after every run of the loop body. Every error that a run of the loop
  body records carries the line and the column of the position at which the body, after
  the white space, started to scan the construct (the comment, the literal, the number or
  the character), wherever in the construct the problem was detected; in particular every
  error that \<open>_scan_char\<close> or \<open>_scan_string\<close> records, an illegal escape included, carries
  the line and the column of the opening quote of the literal. So every error of a whole
  scan carries the line and the column of a position of the text that holds a character
  other than white space.
\<close>

theorem C9_errors_anchored_at_start:
  "(\<forall>source. cursor_ok (Lexer source))
   \<and> (\<forall>s0 s' ctl. cursor_ok s0 \<and> tokenize_body s0 = Inr (s', ctl) \<longrightarrow>
      cursor_ok s'
      \<and> (\<exists>s1. skip_ws s0 = Inr s1 \<and> pos s1 < length (src s0)
         \<and> \<not> is_space (src s0 ! pos s1)
         \<and> anchored (line_of (src s0) (pos s1)) (col_of (src s0) (pos s1))
              (errors s0) (errors s')))
   \<and> (\<forall>s s' r. scan_char s = Inr (s', r) \<longrightarrow> anchored (line s) (col s) (errors s) (errors s'))
   \<and> (\<forall>s s' r. scan_string s = Inr (s', r) \<longrightarrow> anchored (line s) (col s) (errors s) (errors s'))
   \<and> (\<forall>source s. tokenize (Lexer source) = Inr s \<longrightarrow> list_all (at_construct source) (errors s))"
proof (intro conjI allI impI)
  fix source
  show "cursor_ok (Lexer source)" by (rule cursor_ok_Lexer)
next
  fix s0 s' ctl
  assume "cursor_ok s0 \<and> tokenize_body s0 = Inr (s', ctl)"
  then have ok: "cursor_ok s0" and body: "tokenize_body s0 = Inr (s', ctl)" by simp_all
  from tokenize_body_errors [OF body ok]
  show "cursor_ok s'" by auto
  from tokenize_body_errors [OF body ok]
  show "\<exists>s1. skip_ws s0 = Inr s1 \<and> pos s1 < length (src s0)
         \<and> \<not> is_space (src s0 ! pos s1)
         \<and> anchored (line_of (src s0) (pos s1)) (col_of (src s0) (pos s1))
              (errors s0) (errors s')"
    by auto
next
  fix s s' r
  assume "scan_char s = Inr (s', r)"
  then show "anchored (line s) (col s) (errors s) (errors s')" by (rule scan_char_anchored)
next
  fix s s' r
  assume "scan_string s = Inr (s', r)"
  then show "anchored (line s) (col s) (errors s) (errors s')" by (rule scan_string_anchored)
next
  fix source s
  assume "tokenize (Lexer source) = Inr s"
  then show "list_all (at_construct source) (errors s)" by (rule tokenize_errors_at_construct)
qed

text \<open>
  The theorem on the text of the example. The run of the loop body that starts after the
  token \<open>a\<close>, at the newline (position 1), skips the white space to the opening quote
  (position 3: line 2, column 2) and records the illegal escape, which it meets at
  position 6 (line 2, column 5), with the line and the column of position 3.
\<close>

theorem C9_errors_anchored_at_start_witness:
  "cursor_ok \<lparr>src = escape_example, pos = 1, line = 1, col = 2, tokens = [], errors = [],
       sym_table = [''a''], const_table = []\<rparr>
   \<and> skip_ws \<lparr>src = escape_example, pos = 1, line = 1, col = 2, tokens = [], errors = [],
       sym_table = [''a''], const_table = []\<rparr>
     = Inr \<lparr>src = escape_example, pos = 3, line = 2, col = 2, tokens = [], errors = [],
       sym_table = [''a''], const_table = []\<rparr>
   \<and> tokenize_body \<lparr>src = escape_example, pos = 1, line = 1, col = 2, tokens = [], errors = [],
       sym_table = [''a''], const_table = []\<rparr>
     = Inr (\<lparr>src = escape_example, pos = 9, line = 2, col = 8,
         tokens = [\<lparr>tok_code = 54,
                    tok_value = [CHR 0x22, CHR ''a'', CHR ''b'', CHR 0x5C, CHR ''q'', CHR 0x22],
                    tok_attr = CONSTANT 0, tok_line = 2, tok_col = 2\<rparr>],
         errors = [LexError ILLEGAL_ESCAPE 2 2 [CHR 0x5C, CHR ''q''] NoInfo],
         sym_table = [''a''],
         const_table = [[CHR 0x22, CHR ''a'', CHR ''b'', CHR 0x5C, CHR ''q'', CHR 0x22]]\<rparr>,
        Continue)
   \<and> anchored (line_of escape_example 3) (col_of escape_example 3) []
        [LexError ILLEGAL_ESCAPE 2 2 [CHR 0x5C, CHR ''q''] NoInfo]
   \<and> at_construct escape_example (LexError ILLEGAL_ESCAPE 2 2 [CHR 0x5C, CHR ''q''] NoInfo)
   \<and> line_of escape_example 3 = 2 \<and> col_of escape_example 3 = 2
   \<and> line_of escape_example 6 = 2 \<and> col_of escape_example 6 = 5"
proof -
  let ?start = "\<lparr>src = escape_example, pos = 1, line = 1, col = 2, tokens = [], errors = [],
       sym_table = [''a''], const_table = []\<rparr>"
  let ?here = "\<lparr>src = escape_example, pos = 3, line = 2, col = 2, tokens = [], errors = [],
       sym_table = [''a''], const_table = []\<rparr>"
  let ?after = "\<lparr>src = escape_example, pos = 9, line = 2, col = 8,
         tokens = [\<lparr>tok_code = 54,
                    tok_value = [CHR 0x22, CHR ''a'', CHR ''b'', CHR 0x5C, CHR ''q'', CHR 0x22],
                    tok_attr = CONSTANT 0, tok_line = 2, tok_col = 2\<rparr>],
         errors = [LexError ILLEGAL_ESCAPE 2 2 [CHR 0x5C, CHR ''q''] NoInfo],
         sym_table = [''a''],
         const_table = [[CHR 0x22, CHR ''a'', CHR ''b'', CHR 0x5C, CHR ''q'', CHR 0x22]]\<rparr>"
  have ok: "cursor_ok ?start" by code_simp
  have ws: "skip_ws ?start = Inr ?here" by code_simp
  have body: "tokenize_body ?start = Inr (?after, Continue)" by code_simp
  from C9_errors_anchored_at_start [THEN conjunct2, THEN conjunct1, rule_format,
      of ?start ?after Continue] ok body
  obtain s1 where s1: "skip_ws ?start = Inr s1"
    and an: "anchored (line_of (src ?start) (pos s1)) (col_of (src ?start) (pos s1))
        (errors ?start) (errors ?after)"
    by blast
  from s1 ws have "s1 = ?here" by simp
  with an have a3: "anchored (line_of escape_example 3) (col_of escape_example 3) []
        [LexError ILLEGAL_ESCAPE 2 2 [CHR 0x5C, CHR ''q''] NoInfo]"
    by simp
  from C9_errors_anchored_at_start escape_example_run
  have "list_all (at_construct escape_example)
      (errors \<lparr>src = escape_example, pos = 9, line = 2, col = 8,
       tokens = [\<lparr>tok_code = 50, tok_value = ''a'', tok_attr = SYM 0, tok_line = 1, tok_col = 1\<rparr>,
                 \<lparr>tok_code = 54,
                    tok_value = [CHR 0x22, CHR ''a'', CHR ''b'', CHR 0x5C, CHR ''q'', CHR 0x22],
                    tok_attr = CONSTANT 0, tok_line = 2, tok_col = 2\<rparr>],
       errors = [LexError ILLEGAL_ESCAPE 2 2 [CHR 0x5C, CHR ''q''] NoInfo],
       sym_table = [''a''],
       const_table = [[CHR 0x22, CHR ''a'', CHR ''b'', CHR 0x5C, CHR ''q'', CHR 0x22]]\<rparr>)"
    by blast
  then have a: "at_construct escape_example (LexError ILLEGAL_ESCAPE 2 2 [CHR 0x5C, CHR ''q''] NoInfo)"
    by simp
  have l: "line_of escape_example 3 = 2" "col_of escape_example 3 = 2"
    "line_of escape_example 6 = 2" "col_of escape_example 6 = 5"
    by code_simp+
  show ?thesis by (intro conjI) (rule ok ws body a3 a l)+
qed

section \<open>Determinism of the tables\<close>

lemma add_sym_lookup_or_insert:
  "\<exists>i. add_sym s name = Inr (s\<lparr>sym_table := insert_new (sym_table s) name\<rparr>, i)
       \<and> index (insert_new (sym_table s) name) name = Some i"
proof (cases "add_sym s name")
  case (Inl e)
  then show ?thesis by (simp add: add_sym_not_Inl)
next
  case (Inr x)
  then show ?thesis by (cases x) (simp add: add_sym_Inr)
qed

lemma add_const_lookup_or_insert:
  "\<exists>i. add_const s val = Inr (s\<lparr>const_table := insert_new (const_table s) val\<rparr>, i)
       \<and> index (insert_new (const_table s) val) val = Some i"
proof (cases "add_const s val")
  case (Inl e)
  then show ?thesis by (simp add: add_const_not_Inl)
next
  case (Inr x)
  then show ?thesis by (cases x) (simp add: add_const_Inr)
qed

lemma body_step_tables:
  assumes "body_step s0 s1 r s'"
  shows "\<exists>vs ws. sym_table s' = foldl insert_new (sym_table s0) vs
     \<and> const_table s' = foldl insert_new (const_table s0) ws
     \<and> length vs + length ws \<le> 1"
proof (cases r)
  case None
  with assms have "sym_table s' = foldl insert_new (sym_table s0) []
     \<and> const_table s' = foldl insert_new (const_table s0) [] \<and> length ([]::string list) + length ([]::string list) \<le> 1"
    by (simp add: body_step_def scanned_def)
  then show ?thesis by blast
next
  case (Some t)
  show ?thesis
  proof (cases "tok_attr t")
    case Dash
    with Some assms have "sym_table s' = foldl insert_new (sym_table s0) []
       \<and> const_table s' = foldl insert_new (const_table s0) [] \<and> length ([]::string list) + length ([]::string list) \<le> 1"
      by (simp add: body_step_def scanned_def)
    then show ?thesis by blast
  next
    case (SYM i)
    with Some assms have "sym_table s' = foldl insert_new (sym_table s0) [tok_value t]
       \<and> const_table s' = foldl insert_new (const_table s0) [] \<and> length [tok_value t] + length ([]::string list) \<le> 1"
      by (simp add: body_step_def scanned_def)
    then show ?thesis by blast
  next
    case (CONSTANT i)
    with Some assms have "sym_table s' = foldl insert_new (sym_table s0) []
       \<and> const_table s' = foldl insert_new (const_table s0) [tok_value t] \<and> length ([]::string list) + length [tok_value t] \<le> 1"
      by (simp add: body_step_def scanned_def)
    then show ?thesis by blast
  qed
qed

lemma attr_ok_same_index:
  assumes "attr_ok s t" and "attr_ok s u" and "tok_value t = tok_value u"
  shows "tok_attr t = SYM i \<and> tok_attr u = SYM j \<longrightarrow> i = j"
    and "tok_attr t = CONSTANT i \<and> tok_attr u = CONSTANT j \<longrightarrow> i = j"
  using assms by (auto simp: attr_ok_def)

text \<open>
  C4: after a scan that returns, the identifier table is the list of the distinct lexemes
  of the identifier tokens in the order of their first occurrence, and the constant table
  is the same for the constant tokens; so neither holds duplicates and each is as long as
  the number of distinct spellings. The attribute of every token is the index of its
  lexeme in its table, so two tokens of one spelling carry one index; the index of a
  spelling in a table of first occurrences is the number of distinct spellings before its
  first occurrence. A run of the loop body changes the tables by at most one
  lookup-or-insert, and \<open>_add_sym\<close> and \<open>_add_const\<close> are lookup-or-insert: they never
  fail, and return the index of the value in the table. The relation between the tables
  and the tokens (\<open>tables_ok\<close>) holds at the start and after every run of the loop body,
  so also at every loop head of a scan that an exception ends later.
\<close>

theorem C4_table_determinism:
  "(\<forall>source s. tokenize (Lexer source) = Inr s \<longrightarrow>
      sym_table s = first_seen (sym_lexemes (tokens s))
      \<and> const_table s = first_seen (const_lexemes (tokens s))
      \<and> distinct (sym_table s) \<and> distinct (const_table s)
      \<and> length (sym_table s) = card (set (sym_lexemes (tokens s)))
      \<and> length (const_table s) = card (set (const_lexemes (tokens s)))
      \<and> list_all (attr_ok s) (tokens s)
      \<and> (\<forall>t \<in> set (tokens s). \<forall>u \<in> set (tokens s). \<forall>i j. tok_value t = tok_value u \<longrightarrow>
            (tok_attr t = SYM i \<and> tok_attr u = SYM j \<longrightarrow> i = j)
            \<and> (tok_attr t = CONSTANT i \<and> tok_attr u = CONSTANT j \<longrightarrow> i = j)))
   \<and> (\<forall>ys (x::string) zs. x \<notin> set ys \<longrightarrow>
         index (first_seen (ys @ x # zs)) x = Some (card (set ys)))
   \<and> (\<forall>s0 s' ctl. tokenize_body s0 = Inr (s', ctl) \<longrightarrow>
         (\<exists>vs ws. sym_table s' = foldl insert_new (sym_table s0) vs
            \<and> const_table s' = foldl insert_new (const_table s0) ws
            \<and> length vs + length ws \<le> 1))
   \<and> (\<forall>s name. \<exists>i. add_sym s name = Inr (s\<lparr>sym_table := insert_new (sym_table s) name\<rparr>, i)
         \<and> index (insert_new (sym_table s) name) name = Some i)
   \<and> (\<forall>s val. \<exists>i. add_const s val = Inr (s\<lparr>const_table := insert_new (const_table s) val\<rparr>, i)
         \<and> index (insert_new (const_table s) val) val = Some i)
   \<and> (\<forall>source. tables_ok (Lexer source))
   \<and> (\<forall>s0 s' ctl. tables_ok s0 \<and> tokenize_body s0 = Inr (s', ctl) \<longrightarrow> tables_ok s')"
proof (intro conjI allI impI ballI)
  fix source s
  assume run: "tokenize (Lexer source) = Inr s"
  from tokenize_tables_ok [OF run tables_ok_Lexer]
  have sy: "sym_table s = first_seen (sym_lexemes (tokens s))"
    and co: "const_table s = first_seen (const_lexemes (tokens s))"
    and at: "list_all (attr_ok s) (tokens s)"
    by (simp_all add: tables_ok_def)
  show "sym_table s = first_seen (sym_lexemes (tokens s))" by (rule sy)
  show "const_table s = first_seen (const_lexemes (tokens s))" by (rule co)
  show "distinct (sym_table s)" by (simp add: sy)
  show "distinct (const_table s)" by (simp add: co)
  show "length (sym_table s) = card (set (sym_lexemes (tokens s)))"
    by (subst sy) (rule length_first_seen)
  show "length (const_table s) = card (set (const_lexemes (tokens s)))"
    by (subst co) (rule length_first_seen)
  show "list_all (attr_ok s) (tokens s)" by (rule at)
  {
    fix t u i j
    assume t: "t \<in> set (tokens s)" and u: "u \<in> set (tokens s)"
      and v: "tok_value t = tok_value u"
    from at t u have ok: "attr_ok s t" "attr_ok s u" by (simp_all add: list_all_iff)
    {
      assume "tok_attr t = SYM i \<and> tok_attr u = SYM j"
      with attr_ok_same_index(1) [OF ok v] show "i = j" by blast
    }
    {
      assume "tok_attr t = CONSTANT i \<and> tok_attr u = CONSTANT j"
      with attr_ok_same_index(2) [OF ok v] show "i = j" by blast
    }
  }
next
  fix ys :: "string list" and x zs
  assume "x \<notin> set ys"
  then show "index (first_seen (ys @ x # zs)) x = Some (card (set ys))"
    by (rule index_first_seen)
next
  fix s0 s' ctl
  assume "tokenize_body s0 = Inr (s', ctl)"
  from tokenize_body_step [OF this] obtain s1 r where "body_step s0 s1 r s'" by blast
  then show "\<exists>vs ws. sym_table s' = foldl insert_new (sym_table s0) vs
            \<and> const_table s' = foldl insert_new (const_table s0) ws
            \<and> length vs + length ws \<le> 1"
    by (rule body_step_tables)
next
  fix s name
  show "\<exists>i. add_sym s name = Inr (s\<lparr>sym_table := insert_new (sym_table s) name\<rparr>, i)
         \<and> index (insert_new (sym_table s) name) name = Some i"
    by (rule add_sym_lookup_or_insert)
next
  fix s val
  show "\<exists>i. add_const s val = Inr (s\<lparr>const_table := insert_new (const_table s) val\<rparr>, i)
         \<and> index (insert_new (const_table s) val) val = Some i"
    by (rule add_const_lookup_or_insert)
next
  fix source
  show "tables_ok (Lexer source)" by (rule tables_ok_Lexer)
next
  fix s0 s' ctl
  assume a: "tables_ok s0 \<and> tokenize_body s0 = Inr (s', ctl)"
  then have "tokenize_body s0 = Inr (s', ctl)" by simp
  from tokenize_body_step [OF this] obtain s1 r where "body_step s0 s1 r s'" by blast
  then show "tables_ok s'" using a by (auto intro: body_step_tables_ok)
qed


text \<open>
  The theorem on the text \<open>x = x + 1;\<close>: the two \<open>x\<close> tokens share the one entry of the
  identifier table, with index 0; and on the spellings \<open>y\<close>, \<open>x\<close>, \<open>x\<close>, where the index
  of \<open>x\<close> is 1.
\<close>

theorem C4_table_determinism_witness:
  "tokenize (Lexer ''x = x + 1;'') =
     Inr \<lparr>src = ''x = x + 1;'', pos = 10, line = 1, col = 11,
       tokens = [\<lparr>tok_code = 50, tok_value = ''x'', tok_attr = SYM 0, tok_line = 1, tok_col = 1\<rparr>,
                 \<lparr>tok_code = 65, tok_value = ''='', tok_attr = Dash, tok_line = 1, tok_col = 3\<rparr>,
                 \<lparr>tok_code = 50, tok_value = ''x'', tok_attr = SYM 0, tok_line = 1, tok_col = 5\<rparr>,
                 \<lparr>tok_code = 60, tok_value = ''+'', tok_attr = Dash, tok_line = 1, tok_col = 7\<rparr>,
                 \<lparr>tok_code = 51, tok_value = ''1'', tok_attr = CONSTANT 0, tok_line = 1,
                    tok_col = 9\<rparr>,
                 \<lparr>tok_code = 136, tok_value = '';'', tok_attr = Dash, tok_line = 1,
                    tok_col = 10\<rparr>],
       errors = [], sym_table = [''x''], const_table = [''1'']\<rparr>
   \<and> first_seen [''x'', ''x''] = [''x'']
   \<and> card (set [''x'', ''x'']) = length [''x'']
   \<and> ''x'' \<notin> set [''y'']
   \<and> index (first_seen ([''y''] @ ''x'' # [''x''])) ''x'' = Some 1"
proof -
  let ?toks = "[\<lparr>tok_code = 50, tok_value = ''x'', tok_attr = SYM 0, tok_line = 1, tok_col = 1\<rparr>,
                 \<lparr>tok_code = 65, tok_value = ''='', tok_attr = Dash, tok_line = 1, tok_col = 3\<rparr>,
                 \<lparr>tok_code = 50, tok_value = ''x'', tok_attr = SYM 0, tok_line = 1, tok_col = 5\<rparr>,
                 \<lparr>tok_code = 60, tok_value = ''+'', tok_attr = Dash, tok_line = 1, tok_col = 7\<rparr>,
                 \<lparr>tok_code = 51, tok_value = ''1'', tok_attr = CONSTANT 0, tok_line = 1,
                    tok_col = 9\<rparr>,
                 \<lparr>tok_code = 136, tok_value = '';'', tok_attr = Dash, tok_line = 1,
                    tok_col = 10\<rparr>]"
  let ?final = "\<lparr>src = ''x = x + 1;'', pos = 10, line = 1, col = 11, tokens = ?toks,
       errors = [], sym_table = [''x''], const_table = [''1'']\<rparr>"
  define F where "F = ?final"
  have run: "tokenize (Lexer ''x = x + 1;'') = Inr F" unfolding F_def by code_simp
  have tk: "tokens F = ?toks" and st: "sym_table F = [''x'']" by (simp_all add: F_def)
  have lex: "sym_lexemes ?toks = [''x'', ''x'']" by code_simp
  from C4_table_determinism run
  have tbl: "sym_table F = first_seen (sym_lexemes (tokens F))"
    "length (sym_table F) = card (set (sym_lexemes (tokens F)))"
    by blast+
  have "first_seen [''x'', ''x''] = first_seen (sym_lexemes (tokens F))"
    by (simp only: tk lex)
  also have "\<dots> = sym_table F" by (simp only: tbl(1))
  also have "\<dots> = [''x'']" by (rule st)
  finally have a1: "first_seen [''x'', ''x''] = [''x'']" .
  have "card (set [''x'', ''x'']) = card (set (sym_lexemes (tokens F)))"
    by (simp only: tk lex)
  also have "\<dots> = length (sym_table F)" by (simp only: tbl(2))
  also have "\<dots> = length [''x'']" by (simp only: st)
  finally have a2: "card (set [''x'', ''x'']) = length [''x'']" .
  have n: "''x'' \<notin> set [''y'']" by simp
  from C4_table_determinism
  have "''x'' \<notin> set [''y''] \<longrightarrow>
      index (first_seen ([''y''] @ ''x'' # [''x''])) ''x'' = Some (card (set [''y'']))"
    by blast
  with n have i: "index (first_seen ([''y''] @ ''x'' # [''x''])) ''x'' = Some 1" by simp
  show ?thesis by (intro conjI) (rule run [unfolded F_def] a1 a2 n i)+
qed

end
